(* ===== verification/Prelude.thy ===== *)
theory Prelude
  imports Main "HOL-Library.Multiset" "HOL-Library.Mapping"
begin

text \<open>
  Shared vocabulary of the development.  Thread identities
  (\<open>std::thread::id\<close>) are natural numbers; the default-constructed id, which
  names no thread, is \<open>None\<close> wherever the code stores an id that may be unset.
  The C++ \<open>size_t\<close> counters are \<open>nat\<close>: an increment would overflow only after
  \<open>2^64\<close> outstanding acquisitions.  The one decrement of the lock that the code
  does not guard by an assertion (\<open>--write_depth_\<close>) is \<open>size_dec\<close>, with the
  wrap-around to \<open>SIZE_MAX\<close> written out.

  The per-thread depth table of the reader-writer lock is a finite map
  \<open>tid \<rightharpoonup> nat\<close>; \<open>depth_sum\<close> adds its values, \<open>held_map\<close> turns a
  per-thread count into the table that stores exactly the non-zero counts, and
  \<open>supp_sum\<close> adds a per-thread count over its finite support.
\<close>

named_theorems rw_defs "definitions of the reader-writer lock unfolded by its proofs"

type_synonym tid = nat

definition size_max :: nat where
  "size_max = 2 ^ 64 - 1"

definition size_dec :: "nat \<Rightarrow> nat" where
  "size_dec n = (if n = 0 then size_max else n - 1)"

definition depth_sum :: "('k \<rightharpoonup> nat) \<Rightarrow> nat" where
  "depth_sum m = (\<Sum>k\<in>dom m. the (m k))"

definition held_map :: "('k \<Rightarrow> nat) \<Rightarrow> ('k \<rightharpoonup> nat)" where
  "held_map f = (\<lambda>k. if f k = 0 then None else Some (f k))"

definition supp_sum :: "('k \<Rightarrow> nat) \<Rightarrow> nat" where
  "supp_sum f = (\<Sum>k | f k \<noteq> 0. f k)"

definition depth_of :: "('k \<rightharpoonup> nat) \<Rightarrow> 'k \<Rightarrow> nat" where
  "depth_of m k = (case m k of None \<Rightarrow> 0 | Some d \<Rightarrow> d)"

subsection \<open>Decrement with wrap-around\<close>

lemma size_dec_pos [simp]: "0 < n \<Longrightarrow> size_dec n = n - 1"
  by (simp add: size_dec_def)

lemma size_dec_zero [simp]: "size_dec 0 = size_max"
  by (simp add: size_dec_def)

lemma size_max_pos [simp]: "size_max \<noteq> 0"
  by (simp add: size_max_def)

subsection \<open>Finite maps of depths\<close>

lemma dom_held_map [simp]: "dom (held_map f) = {k. f k \<noteq> 0}"
  by (auto simp: held_map_def dom_def)

lemma held_map_upd:
  "held_map (f(k := v)) = (if v = 0 then (held_map f)(k := None) else (held_map f)(k \<mapsto> v))"
  by (rule ext) (simp add: held_map_def)

lemma held_map_None_iff [simp]: "held_map f k = None \<longleftrightarrow> f k = 0"
  by (simp add: held_map_def)

lemma held_map_Some_iff [simp]: "held_map f k = Some d \<longleftrightarrow> f k \<noteq> 0 \<and> d = f k"
  by (auto simp: held_map_def)

lemma held_map_zero [simp]: "held_map (\<lambda>_. 0) = Map.empty"
  by (simp add: held_map_def)

lemma supp_sum_superset:
  assumes "finite S" and "{k. f k \<noteq> 0} \<subseteq> S"
  shows "supp_sum f = sum f S"
  unfolding supp_sum_def using assms
  by (intro sum.mono_neutral_left) auto

lemma depth_sum_held_map [simp]: "depth_sum (held_map f) = supp_sum f"
proof -
  have "depth_sum (held_map f) = (\<Sum>k | f k \<noteq> 0. the (held_map f k))"
    by (simp add: depth_sum_def)
  also have "\<dots> = supp_sum f"
    unfolding supp_sum_def by (rule sum.cong) (auto simp: held_map_def)
  finally show ?thesis .
qed

lemma supp_sum_zero [simp]: "supp_sum (\<lambda>_. 0) = 0"
  by (simp add: supp_sum_def)

lemma finite_supp_upd [simp]:
  "finite {k. (f(j := v)) k \<noteq> 0} \<longleftrightarrow> finite {k. f k \<noteq> 0}"
proof -
  have "{k. (f(j := v)) k \<noteq> 0} - {j} = {k. f k \<noteq> 0} - {j}" by auto
  then show ?thesis by (metis finite_Diff2 finite.emptyI finite_insert)
qed

lemma supp_sum_upd:
  assumes fin: "finite {k. f k \<noteq> 0}"
  shows "supp_sum (f(j := v)) + f j = supp_sum f + v"
proof -
  let ?S = "insert j {k. f k \<noteq> 0}"
  have finS: "finite ?S" using fin by simp
  have a: "supp_sum (f(j := v)) = sum (f(j := v)) ?S"
    by (rule supp_sum_superset [OF finS]) auto
  have b: "supp_sum f = sum f ?S"
    by (rule supp_sum_superset [OF finS]) auto
  have c: "sum (f(j := v)) ?S = sum f (?S - {j}) + v"
    using finS by (simp add: sum.remove [of _ j] sum.cong [of "?S - {j}" _ "f(j := v)" f])
  have d: "sum f ?S = sum f (?S - {j}) + f j"
    using finS by (simp add: sum.remove [of _ j])
  from a b c d show ?thesis by simp
qed

lemma supp_sum_eq_0_iff:
  "finite {k. f k \<noteq> 0} \<Longrightarrow> supp_sum f = 0 \<longleftrightarrow> (\<forall>k. f k = 0)"
  by (auto simp: supp_sum_def)

lemma supp_sum_ge: "finite {k. f k \<noteq> 0} \<Longrightarrow> f j \<le> supp_sum f"
  using supp_sum_upd [of f j 0] by simp

lemma sum_upd_nat:
  assumes "finite S" and "k \<in> S"
  shows "sum (f(k := v)) S + f k = sum f S + (v::nat)"
proof -
  have "sum (f(k := v)) S = sum f (S - {k}) + v"
    using assms by (simp add: sum.remove [of _ k] sum.cong [of "S - {k}" _ "f(k := v)" f])
  moreover have "sum f S = sum f (S - {k}) + f k"
    using assms by (simp add: sum.remove [of _ k])
  ultimately show ?thesis by simp
qed

lemma depth_of_upd [simp]:
  "depth_of (m(k \<mapsto> v)) = (depth_of m)(k := v)"
  "depth_of (m(k := None)) = (depth_of m)(k := 0)"
  by (auto simp: depth_of_def)

lemma depth_of_empty [simp]: "depth_of Map.empty = (\<lambda>_. 0)"
  by (simp add: depth_of_def fun_eq_iff)

lemma depth_sum_superset:
  assumes "finite S" and "dom m \<subseteq> S"
  shows "depth_sum m = sum (depth_of m) S"
proof -
  have "depth_sum m = sum (depth_of m) (dom m)"
    unfolding depth_sum_def by (rule sum.cong) (auto simp: depth_of_def)
  also have "\<dots> = sum (depth_of m) S"
    using assms by (intro sum.mono_neutral_left) (auto simp: depth_of_def split: option.splits)
  finally show ?thesis .
qed

lemma depth_sum_update:
  assumes "finite (dom m)"
  shows "depth_sum (m(k \<mapsto> v)) + depth_of m k = depth_sum m + v"
proof -
  let ?S = "insert k (dom m)"
  have fin: "finite ?S" using assms by simp
  have "depth_sum (m(k \<mapsto> v)) = sum ((depth_of m)(k := v)) ?S"
    using fin by (subst depth_sum_superset [of ?S]) auto
  moreover have "depth_sum m = sum (depth_of m) ?S"
    using fin by (rule depth_sum_superset) auto
  ultimately show ?thesis using sum_upd_nat [OF fin, of k "depth_of m" v] by simp
qed

lemma depth_sum_delete:
  assumes "finite (dom m)"
  shows "depth_sum (m(k := None)) + depth_of m k = depth_sum m"
proof -
  let ?S = "insert k (dom m)"
  have fin: "finite ?S" using assms by simp
  have "depth_sum (m(k := None)) = sum ((depth_of m)(k := 0)) ?S"
    using fin by (subst depth_sum_superset [of ?S]) auto
  moreover have "depth_sum m = sum (depth_of m) ?S"
    using fin by (rule depth_sum_superset) auto
  ultimately show ?thesis using sum_upd_nat [OF fin, of k "depth_of m" 0] by simp
qed

lemma depth_of_held_map [simp]: "depth_of (held_map f) = f"
  by (rule ext) (simp add: depth_of_def held_map_def)


subsection \<open>Finite maps as \<open>mapping\<close>\<close>

text \<open>
  Maps of the library (\<open>std::map\<close>, \<open>std::unordered_map\<close>) are \<open>('k, 'v) mapping\<close>,
  read through \<open>Mapping.lookup\<close>; these rules turn their updates into updates of the
  lookup function.
\<close>

lemma lookup_update_fun [simp]: "Mapping.lookup (Mapping.update k v m) = (Mapping.lookup m)(k \<mapsto> v)"
  by (rule ext) (simp add: lookup_update')

lemma lookup_delete_fun [simp]: "Mapping.lookup (Mapping.delete k m) = (Mapping.lookup m)(k := None)"
  by (rule ext) (simp add: Mapping.lookup.rep_eq Mapping.delete.rep_eq)

lemma lookup_empty_fun [simp]: "Mapping.lookup Mapping.empty = Map.empty"
  by (rule ext) simp

declare Mapping.update_update(1) [simp] Mapping.delete_update(1) [simp]

lemma mapping_update_same: "Mapping.lookup m k = Some v \<Longrightarrow> Mapping.update k v m = m"
  by (rule mapping_eqI) (simp add: lookup_update')

lemma mapping_delete_absent: "Mapping.lookup m k = None \<Longrightarrow> Mapping.delete k m = m"
  by (rule mapping_eqI) simp

lemma mapping_size_card: "Mapping.size m = card (dom (Mapping.lookup m))"
  by (simp add: Mapping.size_def keys_dom_lookup)

subsection \<open>The only key of a finite map\<close>

text \<open>
  The C++ test \<open>read_depth_.size() == 1 && read_depth_.cbegin()->first == id\<close>
  reads the size and the least key of an ordered map; on a finite domain it says
  that the domain is the singleton of \<open>id\<close>.
\<close>

lemma card_Min_singleton:
  "finite A \<Longrightarrow> (card A = 1 \<and> Min A = t) \<longleftrightarrow> A = {t}"
  by (auto simp: card_1_singleton_iff)

end
