(* ===== verification/RW_Lock.thy ===== *)
theory RW_Lock
  imports Prelude "HOL-Library.RBT_Mapping"
begin

text \<open>
  The reentrant reader-writer lock \<open>app::shared_mutex\<close> of
  \<open>src/shared_mutex.h\<close>, one operation at a time.  Every public operation runs
  under the internal \<open>std::mutex\<close>, so each is one atomic transformation of the
  record \<open>rw_lock\<close> (the five data members).  A blocking operation waits with
  \<open>cond.wait(lck, pred)\<close>, which tests the predicate before it sleeps; it is
  modelled by its completion, \<open>Some\<close> of the new state when the predicate holds
  and \<open>None\<close> (the caller keeps waiting) otherwise.  \<open>lock()\<close> increments
  \<open>write_cnt_\<close> before it waits, so it is two steps: \<open>lock_enter\<close> and
  \<open>lock_wait\<close>.  The releases end in a notification of one of the two
  condition variables, returned as a \<open>wake\<close> value; \<open>utils_assert\<close> (which
  prints and calls \<open>exit(1)\<close>) is the error \<open>Fatal\<close>, and the decrement through
  the \<open>end()\<close> iterator of the depth map in \<open>unlock_shared\<close> is the error
  \<open>Undefined\<close>.
\<close>

record rw_lock =
  read_cnt :: nat
  write_cnt :: nat
  write_depth :: nat
  w_id :: "tid option"
  rd_map :: "(tid, nat) mapping"

text \<open>
  \<open>read_depth_\<close> is an \<open>std::map\<close>, a red-black tree: an executable \<open>mapping\<close>
  (the code of \<open>RBT_Mapping\<close>), read through its lookup function.
\<close>

abbreviation read_depth :: "rw_lock \<Rightarrow> tid \<rightharpoonup> nat" where
  "read_depth s \<equiv> Mapping.lookup (rd_map s)"

datatype rw_error = Fatal | Undefined

datatype wake = Wake_none | Wake_writer | Wake_readers

definition rw_init :: rw_lock where
  "rw_init = \<lparr>read_cnt = 0, write_cnt = 0, write_depth = 0, w_id = None, rd_map = Mapping.empty\<rparr>"

definition readable :: "rw_lock \<Rightarrow> tid \<Rightarrow> bool" where
  "readable s t = (if write_cnt s = 0 then True else if w_id s = Some t then True else False)"

definition writeable :: "rw_lock \<Rightarrow> tid \<Rightarrow> bool" where
  "writeable s t =
     (if read_cnt s = 0 \<and> write_cnt s = 1 then True
      else if w_id s = Some t then True
      else if Mapping.size (rd_map s) = 1 \<and> Min (Mapping.keys (rd_map s)) = t then True
      else False)"

definition rw_read :: "rw_lock \<Rightarrow> tid \<Rightarrow> rw_lock" where
  "rw_read s t =
     s\<lparr>read_cnt := Suc (read_cnt s),
       rd_map := Mapping.update t (Suc (case read_depth s t of None \<Rightarrow> 0 | Some d \<Rightarrow> d)) (rd_map s)\<rparr>"

definition rw_write :: "rw_lock \<Rightarrow> tid \<Rightarrow> rw_lock" where
  "rw_write s t = s\<lparr>write_depth := Suc (write_depth s), w_id := Some t\<rparr>"

definition lock_shared :: "rw_lock \<Rightarrow> tid \<Rightarrow> rw_lock option" where
  "lock_shared s t = (if readable s t then Some (rw_read s t) else None)"

definition try_lock_shared :: "rw_lock \<Rightarrow> tid \<Rightarrow> bool \<times> rw_lock" where
  "try_lock_shared s t = (if readable s t then (True, rw_read s t) else (False, s))"

definition unlock_shared :: "rw_lock \<Rightarrow> tid \<Rightarrow> rw_error + rw_lock \<times> wake" where
  "unlock_shared s t =
     (if read_cnt s = 0 then Inl Fatal
      else let s1 = s\<lparr>read_cnt := read_cnt s - 1\<rparr> in
        case read_depth s1 t of
          None \<Rightarrow> Inl Undefined
        | Some d \<Rightarrow>
            if d = 0 then Inl Fatal
            else let r = d - 1;
                     s2 = s1\<lparr>rd_map := (if r = 0 then Mapping.delete t (rd_map s1)
                                        else Mapping.update t r (rd_map s1))\<rparr>
                 in if 0 < write_depth s2 then Inr (s2, Wake_none)
                    else if r = 0 then
                      (let s3 = s2\<lparr>w_id := None\<rparr> in
                       if 0 < write_cnt s3 then Inr (s3, Wake_writer) else Inr (s3, Wake_readers))
                    else if write_cnt s2 = 0 then Inr (s2, Wake_readers)
                    else Inr (s2, Wake_none))"

definition lock_enter :: "rw_lock \<Rightarrow> rw_lock" where
  "lock_enter s = s\<lparr>write_cnt := Suc (write_cnt s)\<rparr>"

definition lock_wait :: "rw_lock \<Rightarrow> tid \<Rightarrow> rw_lock option" where
  "lock_wait s t = (if writeable s t then Some (rw_write s t) else None)"

definition try_lock :: "rw_lock \<Rightarrow> tid \<Rightarrow> bool \<times> rw_lock" where
  "try_lock s t =
     (if writeable s t then (True, rw_write (s\<lparr>write_cnt := Suc (write_cnt s)\<rparr>) t) else (False, s))"

definition unlock :: "rw_lock \<Rightarrow> tid \<Rightarrow> rw_error + rw_lock \<times> wake" where
  "unlock s t =
     (if write_cnt s = 0 then Inl Fatal
      else let s1 = s\<lparr>write_cnt := write_cnt s - 1\<rparr>;
               s2 = (if w_id s1 = Some t then s1\<lparr>write_depth := size_dec (write_depth s1)\<rparr> else s1)
           in if w_id s1 = Some t \<and> write_depth s2 \<noteq> 0 then Inr (s2, Wake_none)
              else if read_depth s2 t = None then
                (let s3 = s2\<lparr>w_id := None\<rparr> in
                 if 0 < write_cnt s3 then Inr (s3, Wake_writer) else Inr (s3, Wake_readers))
              else if write_cnt s2 = 0 then Inr (s2, Wake_readers)
              else Inr (s2, Wake_none))"

text \<open>
  The data-model invariant of the specification: the depth table is finite and
  holds no zero depth, \<open>read_cnt_\<close> is the sum of the depths, and a writer id is
  set exactly when the write depth is positive.
\<close>

definition rw_wf :: "rw_lock \<Rightarrow> bool" where
  "rw_wf s \<longleftrightarrow> finite (dom (read_depth s)) \<and> (\<forall>t. read_depth s t \<noteq> Some 0) \<and>
     read_cnt s = depth_sum (read_depth s) \<and> (write_depth s = 0 \<longleftrightarrow> w_id s = None)"

text \<open>
  \<open>writeable\<close> read through the lookup function of the depth table: the size of a
  map is the number of keys it maps.
\<close>

lemma writeable_eq:
  "writeable s t =
     (if read_cnt s = 0 \<and> write_cnt s = 1 then True
      else if w_id s = Some t then True
      else if card (dom (read_depth s)) = 1 \<and> Min (dom (read_depth s)) = t then True
      else False)"
  by (simp add: writeable_def mapping_size_card keys_dom_lookup)

declare rw_init_def [rw_defs] readable_def [rw_defs] writeable_eq [rw_defs]
  rw_read_def [rw_defs] rw_write_def [rw_defs] lock_shared_def [rw_defs]
  try_lock_shared_def [rw_defs] unlock_shared_def [rw_defs] lock_enter_def [rw_defs]
  lock_wait_def [rw_defs] try_lock_def [rw_defs] unlock_def [rw_defs]

subsection \<open>Basic facts\<close>

lemma case_depth_of: "(case m t of None \<Rightarrow> 0 | Some d \<Rightarrow> d) = depth_of m t"
  by (simp add: depth_of_def)

lemma writeable_sole_reader:
  "finite (dom (read_depth s)) \<Longrightarrow> dom (read_depth s) = {t} \<Longrightarrow> writeable s t"
  by (simp add: writeable_eq)

lemma writeable_iff:
  "finite (dom (read_depth s)) \<Longrightarrow>
   writeable s t \<longleftrightarrow> (read_cnt s = 0 \<and> write_cnt s = 1) \<or> w_id s = Some t \<or> dom (read_depth s) = {t}"
  using card_Min_singleton [of "dom (read_depth s)" t]
  by (auto simp: writeable_eq)

lemma readable_iff: "readable s t \<longleftrightarrow> write_cnt s = 0 \<or> w_id s = Some t"
  by (simp add: readable_def)

subsection \<open>The data-model invariant\<close>

lemma rw_wf_init: "rw_wf rw_init"
  by (simp add: rw_wf_def rw_init_def depth_sum_def)

lemma rw_read_wf: "rw_wf s \<Longrightarrow> rw_wf (rw_read s t)"
  using depth_sum_update [of "read_depth s" t "Suc (depth_of (read_depth s) t)"]
  by (auto simp: rw_wf_def rw_read_def case_depth_of)

lemma rw_write_wf: "rw_wf s \<Longrightarrow> rw_wf (rw_write s t)"
  by (simp add: rw_wf_def rw_write_def)

lemma lock_enter_wf: "rw_wf s \<Longrightarrow> rw_wf (lock_enter s)"
  by (simp add: rw_wf_def lock_enter_def)

lemma unlock_shared_Inr:
  assumes "unlock_shared s t = Inr (s', w)"
  obtains d where "read_depth s t = Some d" "d \<noteq> 0" "read_cnt s \<noteq> 0"
    "read_cnt s' = read_cnt s - 1" "write_cnt s' = write_cnt s" "write_depth s' = write_depth s"
    "read_depth s' = (if d = 1 then (read_depth s)(t := None) else (read_depth s)(t \<mapsto> d - 1))"
    "w_id s' = w_id s \<or> (w_id s' = None \<and> write_depth s = 0)"
  using assms
  by (cases "read_depth s t") (auto simp: unlock_shared_def Let_def split: if_splits)

lemma unlock_shared_wf:
  assumes wf: "rw_wf s" and ok: "unlock_shared s t = Inr (s', w)"
  shows "rw_wf s'"
proof -
  from ok obtain d where d: "read_depth s t = Some d" "d \<noteq> 0" "read_cnt s \<noteq> 0"
    and cnt: "read_cnt s' = read_cnt s - 1" and wd: "write_depth s' = write_depth s"
    and rd: "read_depth s' = (if d = 1 then (read_depth s)(t := None) else (read_depth s)(t \<mapsto> d - 1))"
    and wid: "w_id s' = w_id s \<or> (w_id s' = None \<and> write_depth s = 0)"
    by (rule unlock_shared_Inr)
  have fin: "finite (dom (read_depth s))" and sum: "read_cnt s = depth_sum (read_depth s)"
    using wf by (simp_all add: rw_wf_def)
  have dt: "depth_of (read_depth s) t = d" using d by (simp add: depth_of_def)
  have "read_cnt s' = depth_sum (read_depth s')"
  proof (cases "d = 1")
    case True
    with depth_sum_delete [OF fin, of t] dt sum cnt rd show ?thesis by simp
  next
    case False
    with depth_sum_update [OF fin, of t "d - 1"] dt sum cnt rd d show ?thesis by simp
  qed
  with wf wd wid rd d fin show ?thesis by (auto simp: rw_wf_def)
qed

lemma lock_wait_wf: "rw_wf s \<Longrightarrow> lock_wait s t = Some s' \<Longrightarrow> rw_wf s'"
  by (auto simp: lock_wait_def rw_write_wf split: if_splits)

lemma try_lock_wf: "rw_wf s \<Longrightarrow> rw_wf (snd (try_lock s t))"
  by (auto simp: try_lock_def rw_wf_def rw_write_def)

lemma rw_ops_wf:
  assumes "rw_wf s"
  shows "lock_shared s t = Some s' \<Longrightarrow> rw_wf s'" and "rw_wf (snd (try_lock_shared s t))"
  using assms by (auto simp: lock_shared_def try_lock_shared_def rw_read_wf split: if_splits)

lemma map_upd_None_triv: "m t = None \<Longrightarrow> (m(t \<mapsto> v))(t := None) = m"
  by (rule ext) simp

lemma unlock_owner:
  assumes "w_id s = Some t" "write_depth s \<noteq> 0" "unlock s t = Inr (l, w)"
  shows "write_cnt l = write_cnt s - 1" "write_depth l = write_depth s - 1" "read_cnt l = read_cnt s"
    "read_depth l = read_depth s"
    "w_id l = (if write_depth s = 1 \<and> read_depth s t = None then None else Some t)"
  using assms by (auto simp: unlock_def Let_def split: if_splits)


lemma try_fail_same: "try_lock_shared s t = (False, l) \<Longrightarrow> l = s" "try_lock s t = (False, l) \<Longrightarrow> l = s"
  by (auto simp: try_lock_shared_def try_lock_def split: if_splits)


lemma unlock_shared_rw_read:
  assumes "rw_wf s"
  shows "\<exists>w. unlock_shared (rw_read s t) t = Inr (s, w)"
proof (cases "read_depth s t")
  case None
  with assms show ?thesis
    by (auto simp: unlock_shared_def rw_read_def rw_wf_def Let_def depth_of_def mapping_delete_absent)
next
  case (Some d)
  with assms have d: "0 < d" by (auto simp: rw_wf_def intro: gr0I)
  have "read_depth (rw_read s t) t = Some (Suc d)"
    using Some by (simp add: rw_read_def depth_of_def)
  with Some d assms show ?thesis
    by (auto simp: unlock_shared_def rw_read_def rw_wf_def Let_def depth_of_def mapping_update_same)
qed

subsection \<open>Properties of the operations\<close>

text \<open>
  C11. Every operation of the lock except \<open>unlock\<close> keeps the data-model
  invariant of the specification: a finite depth table without zero entries whose
  sum is \<open>read_cnt_\<close>, and a writer id set exactly when the write depth is positive.
\<close>

theorem rw_ops_preserve_wf:
  assumes "rw_wf s"
  shows "(\<forall>s'. lock_shared s t = Some s' \<longrightarrow> rw_wf s') \<and> rw_wf (snd (try_lock_shared s t)) \<and>
         (\<forall>s' w. unlock_shared s t = Inr (s', w) \<longrightarrow> rw_wf s') \<and> rw_wf (lock_enter s) \<and>
         (\<forall>s'. lock_wait s t = Some s' \<longrightarrow> rw_wf s') \<and> rw_wf (snd (try_lock s t))"
  using assms rw_ops_wf [OF assms] unlock_shared_wf lock_enter_wf lock_wait_wf try_lock_wf
  by blast

theorem rw_ops_preserve_wf_witness:
  "rw_wf rw_init \<and> rw_wf (lock_enter rw_init) \<and> rw_wf (snd (try_lock rw_init 0))"
  using rw_ops_preserve_wf [OF rw_wf_init, of 0] rw_wf_init by simp

text \<open>
  C13. \<open>unlock_shared\<close> by a thread that holds no shared acquisition: when no
  thread holds one, the assertion stops the process; when another thread holds
  one, the assertion passes and the code decrements through the \<open>end()\<close>
  iterator of the depth map, which is undefined behaviour.
\<close>

theorem unlock_shared_errors:
  "(read_cnt s = 0 \<longrightarrow> unlock_shared s t = Inl Fatal) \<and>
   (read_cnt s \<noteq> 0 \<and> read_depth s t = None \<longrightarrow> unlock_shared s t = Inl Undefined)"
  by (simp add: unlock_shared_def Let_def)

theorem unlock_shared_errors_witness:
  "unlock_shared rw_init 0 = Inl Fatal \<and> unlock_shared (rw_read rw_init 1) 2 = Inl Undefined"
  using unlock_shared_errors [of rw_init 0] unlock_shared_errors [of "rw_read rw_init 1" 2]
  by (simp add: rw_init_def rw_read_def)

text \<open>
  C14. \<open>unlock\<close> with no exclusive request outstanding stops the process; but a
  thread that is not the writer and holds no shared acquisition may call it while
  another thread is the writer: the assertion passes, the writer's hold is counted
  down and the writer id is cleared.
\<close>

theorem unlock_errors:
  "(write_cnt s = 0 \<longrightarrow> unlock s t = Inl Fatal) \<and>
   (write_cnt s \<noteq> 0 \<and> w_id s \<noteq> Some t \<and> read_depth s t = None \<longrightarrow>
      (\<exists>w. unlock s t = Inr (s\<lparr>write_cnt := write_cnt s - 1, w_id := None\<rparr>, w)))"
  by (auto simp: unlock_def Let_def)

theorem unlock_errors_witness:
  "unlock rw_init 0 = Inl Fatal \<and>
   (\<exists>w. unlock (rw_write (lock_enter rw_init) 1) 2 =
          Inr ((rw_write (lock_enter rw_init) 1)\<lparr>write_cnt := 0, w_id := None\<rparr>, w))"
  using unlock_errors [of rw_init 0] unlock_errors [of "rw_write (lock_enter rw_init) 1" 2]
  by (simp add: rw_init_def rw_write_def lock_enter_def)

text \<open>
  C15. \<open>try_lock\<close> on an idle lock fails: its writability test sees
  \<open>write_cnt_ = 0\<close>, not the \<open>1\<close> that \<open>lock()\<close> would have counted before testing.
\<close>

theorem try_lock_idle_fails: "try_lock rw_init t = (False, rw_init)"
  by (simp add: try_lock_def writeable_eq rw_init_def)

text \<open>
  C16. \<open>try_lock\<close> succeeds, for any calling thread, whenever there is no reader
  and exactly one exclusive request is counted, which is the state of a lock held
  exclusively by another thread.
\<close>

theorem try_lock_steals:
  "read_cnt s = 0 \<Longrightarrow> write_cnt s = 1 \<Longrightarrow>
   try_lock s t = (True, s\<lparr>write_cnt := 2, write_depth := Suc (write_depth s), w_id := Some t\<rparr>)"
  by (simp add: try_lock_def writeable_eq rw_write_def)

theorem try_lock_steals_witness:
  "read_cnt (rw_write (lock_enter rw_init) 1) = 0 \<and> write_cnt (rw_write (lock_enter rw_init) 1) = 1 \<and>
   fst (try_lock (rw_write (lock_enter rw_init) 1) 2)"
  using try_lock_steals [of "rw_write (lock_enter rw_init) 1" 2]
  by (simp add: rw_init_def rw_write_def lock_enter_def)

text \<open>
  C17. The final \<open>unlock\<close> of a writer that still holds a shared acquisition
  (the end of a read-to-write upgrade) leaves the writer id set with write depth
  zero, against the data-model invariant of the specification.
\<close>

theorem unlock_upgrader_keeps_writer:
  "w_id s = Some t \<Longrightarrow> write_depth s = 1 \<Longrightarrow> write_cnt s \<noteq> 0 \<Longrightarrow> read_depth s t \<noteq> None \<Longrightarrow>
   \<exists>w. unlock s t = Inr (s\<lparr>write_cnt := write_cnt s - 1, write_depth := 0\<rparr>, w) \<and>
       \<not> rw_wf (s\<lparr>write_cnt := write_cnt s - 1, write_depth := 0\<rparr>)"
  by (auto simp: unlock_def Let_def rw_wf_def)

theorem unlock_upgrader_keeps_writer_witness:
  "lock_wait (lock_enter (rw_read rw_init 0)) 0 = Some (rw_write (lock_enter (rw_read rw_init 0)) 0) \<and>
   (\<exists>w. unlock (rw_write (lock_enter (rw_read rw_init 0)) 0) 0 =
      Inr ((rw_write (lock_enter (rw_read rw_init 0)) 0)\<lparr>write_cnt := 0, write_depth := 0\<rparr>, w))"
proof -
  let ?s = "rw_write (lock_enter (rw_read rw_init 0)) 0"
  have "w_id ?s = Some 0" "write_depth ?s = 1" "write_cnt ?s \<noteq> 0" "read_depth ?s 0 \<noteq> None"
    by (simp_all add: rw_init_def rw_read_def rw_write_def lock_enter_def)
  from unlock_upgrader_keeps_writer [OF this] have "\<exists>w. unlock ?s 0 = Inr (?s\<lparr>write_cnt := 0, write_depth := 0\<rparr>, w)"
    by (simp add: rw_init_def rw_read_def rw_write_def lock_enter_def)
  moreover have "lock_wait (lock_enter (rw_read rw_init 0)) 0 = Some ?s"
    by (simp add: lock_wait_def writeable_eq rw_init_def rw_read_def lock_enter_def)
  ultimately show ?thesis by simp
qed

text \<open>
  C18. A second \<open>unlock\<close> by the thread that the writer id still names after
  such a release is not caught by the assertion when another exclusive request is
  pending: \<open>--write_depth_\<close> wraps around to \<open>SIZE_MAX\<close>.
\<close>

theorem unlock_stale_writer_wraps:
  "w_id s = Some t \<Longrightarrow> write_depth s = 0 \<Longrightarrow> write_cnt s \<noteq> 0 \<Longrightarrow>
   unlock s t = Inr (s\<lparr>write_cnt := write_cnt s - 1, write_depth := size_max\<rparr>, Wake_none)"
  by (simp add: unlock_def Let_def)

theorem unlock_stale_writer_wraps_witness:
  "unlock \<lparr>read_cnt = 1, write_cnt = 1, write_depth = 0, w_id = Some 0, rd_map = Mapping.update 0 1 Mapping.empty\<rparr> 0 =
   Inr (\<lparr>read_cnt = 1, write_cnt = 0, write_depth = size_max, w_id = Some 0, rd_map = Mapping.update 0 1 Mapping.empty\<rparr>, Wake_none)"
  using unlock_stale_writer_wraps
    [of "\<lparr>read_cnt = 1, write_cnt = 1, write_depth = 0, w_id = Some 0, rd_map = Mapping.update 0 1 Mapping.empty\<rparr>" 0]
  by simp

end
