(* ===== verification/RW_System.thy ===== *)
theory RW_System
  imports RW_Lock
begin

text \<open>
  Threads using one \<open>shared_mutex\<close>.  Each thread is either outside the lock's
  code or blocked inside \<open>lock_shared()\<close> or \<open>lock()\<close> (its program counter);
  every step is one critical section of the internal mutex, so the steps of
  different threads interleave.  \<open>lock_shared()\<close> is two steps (entry, then
  the acquisition once \<open>readable()\<close> holds), \<open>lock()\<close> too (entry with
  \<open>++write_cnt_\<close>, then the acquisition once \<open>writeable()\<close> holds); the others
  are one step.  A blocked thread may take its acquisition step whenever its wait
  predicate holds, which is every wake-up the condition variables could deliver;
  safety proved here therefore holds for any notification order, and a thread
  whose predicate never holds again is blocked for good whatever is notified.

  Beside the lock the state records, for each thread, how many shared and
  exclusive acquisitions it holds (\<open>rd_held\<close>, \<open>wr_held\<close>): the calls that
  returned and have not been released, which the code keeps on the threads'
  stacks.  A usage policy says which calls a thread makes: \<open>well_used\<close> is the
  API contract (release only what one holds), \<open>disciplined\<close> adds that
  \<open>try_lock\<close> is not used and that a writer releases its last exclusive hold only
  after its shared ones.
\<close>

datatype pc = Outside | Wait_shared | Wait_exclusive

record rw_sys =
  lk :: rw_lock
  pcs :: "tid \<Rightarrow> pc"
  rd_held :: "tid \<Rightarrow> nat"
  wr_held :: "tid \<Rightarrow> nat"

datatype rw_act =
    Call_lock_shared tid | Acquire_shared tid | Try_lock_shared tid | Unlock_shared tid
  | Call_lock tid | Acquire tid | Try_lock tid | Unlock tid

definition sys_init :: rw_sys where
  "sys_init = \<lparr>lk = rw_init, pcs = (\<lambda>_. Outside), rd_held = (\<lambda>_. 0), wr_held = (\<lambda>_. 0)\<rparr>"

inductive rw_step :: "rw_sys \<Rightarrow> rw_act \<Rightarrow> rw_sys \<Rightarrow> bool" where
  call_shared: "pcs s t = Outside \<Longrightarrow>
     rw_step s (Call_lock_shared t) (s\<lparr>pcs := (pcs s)(t := Wait_shared)\<rparr>)"
| acquire_shared: "pcs s t = Wait_shared \<Longrightarrow> lock_shared (lk s) t = Some l \<Longrightarrow>
     rw_step s (Acquire_shared t)
       (s\<lparr>lk := l, pcs := (pcs s)(t := Outside), rd_held := (rd_held s)(t := Suc (rd_held s t))\<rparr>)"
| try_shared: "pcs s t = Outside \<Longrightarrow> try_lock_shared (lk s) t = (True, l) \<Longrightarrow>
     rw_step s (Try_lock_shared t) (s\<lparr>lk := l, rd_held := (rd_held s)(t := Suc (rd_held s t))\<rparr>)"
| try_shared_fail: "pcs s t = Outside \<Longrightarrow> try_lock_shared (lk s) t = (False, l) \<Longrightarrow>
     rw_step s (Try_lock_shared t) (s\<lparr>lk := l\<rparr>)"
| release_shared: "pcs s t = Outside \<Longrightarrow> unlock_shared (lk s) t = Inr (l, w) \<Longrightarrow>
     rw_step s (Unlock_shared t) (s\<lparr>lk := l, rd_held := (rd_held s)(t := rd_held s t - 1)\<rparr>)"
| call_lock: "pcs s t = Outside \<Longrightarrow>
     rw_step s (Call_lock t) (s\<lparr>lk := lock_enter (lk s), pcs := (pcs s)(t := Wait_exclusive)\<rparr>)"
| acquire: "pcs s t = Wait_exclusive \<Longrightarrow> lock_wait (lk s) t = Some l \<Longrightarrow>
     rw_step s (Acquire t)
       (s\<lparr>lk := l, pcs := (pcs s)(t := Outside), wr_held := (wr_held s)(t := Suc (wr_held s t))\<rparr>)"
| try_excl: "pcs s t = Outside \<Longrightarrow> try_lock (lk s) t = (True, l) \<Longrightarrow>
     rw_step s (Try_lock t) (s\<lparr>lk := l, wr_held := (wr_held s)(t := Suc (wr_held s t))\<rparr>)"
| try_excl_fail: "pcs s t = Outside \<Longrightarrow> try_lock (lk s) t = (False, l) \<Longrightarrow>
     rw_step s (Try_lock t) (s\<lparr>lk := l\<rparr>)"
| release: "pcs s t = Outside \<Longrightarrow> unlock (lk s) t = Inr (l, w) \<Longrightarrow>
     rw_step s (Unlock t) (s\<lparr>lk := l, wr_held := (wr_held s)(t := wr_held s t - 1)\<rparr>)"

text \<open>The same steps as a function, so that runs evaluate.\<close>

fun rw_exec :: "rw_sys \<Rightarrow> rw_act \<Rightarrow> rw_sys option" where
  "rw_exec s (Call_lock_shared t) =
     (if pcs s t = Outside then Some (s\<lparr>pcs := (pcs s)(t := Wait_shared)\<rparr>) else None)"
| "rw_exec s (Acquire_shared t) =
     (if pcs s t = Wait_shared then
        (case lock_shared (lk s) t of None \<Rightarrow> None
         | Some l \<Rightarrow> Some (s\<lparr>lk := l, pcs := (pcs s)(t := Outside),
                              rd_held := (rd_held s)(t := Suc (rd_held s t))\<rparr>))
      else None)"
| "rw_exec s (Try_lock_shared t) =
     (if pcs s t = Outside then
        (case try_lock_shared (lk s) t of
           (True, l) \<Rightarrow> Some (s\<lparr>lk := l, rd_held := (rd_held s)(t := Suc (rd_held s t))\<rparr>)
         | (False, l) \<Rightarrow> Some (s\<lparr>lk := l\<rparr>))
      else None)"
| "rw_exec s (Unlock_shared t) =
     (if pcs s t = Outside then
        (case unlock_shared (lk s) t of Inl e \<Rightarrow> None
         | Inr (l, w) \<Rightarrow> Some (s\<lparr>lk := l, rd_held := (rd_held s)(t := rd_held s t - 1)\<rparr>))
      else None)"
| "rw_exec s (Call_lock t) =
     (if pcs s t = Outside then Some (s\<lparr>lk := lock_enter (lk s), pcs := (pcs s)(t := Wait_exclusive)\<rparr>)
      else None)"
| "rw_exec s (Acquire t) =
     (if pcs s t = Wait_exclusive then
        (case lock_wait (lk s) t of None \<Rightarrow> None
         | Some l \<Rightarrow> Some (s\<lparr>lk := l, pcs := (pcs s)(t := Outside),
                              wr_held := (wr_held s)(t := Suc (wr_held s t))\<rparr>))
      else None)"
| "rw_exec s (Try_lock t) =
     (if pcs s t = Outside then
        (case try_lock (lk s) t of
           (True, l) \<Rightarrow> Some (s\<lparr>lk := l, wr_held := (wr_held s)(t := Suc (wr_held s t))\<rparr>)
         | (False, l) \<Rightarrow> Some (s\<lparr>lk := l\<rparr>))
      else None)"
| "rw_exec s (Unlock t) =
     (if pcs s t = Outside then
        (case unlock (lk s) t of Inl e \<Rightarrow> None
         | Inr (l, w) \<Rightarrow> Some (s\<lparr>lk := l, wr_held := (wr_held s)(t := wr_held s t - 1)\<rparr>))
      else None)"

definition well_used :: "rw_sys \<Rightarrow> rw_act \<Rightarrow> bool" where
  "well_used s a =
     (case a of Unlock_shared t \<Rightarrow> rd_held s t \<noteq> 0 | Unlock t \<Rightarrow> wr_held s t \<noteq> 0 | _ \<Rightarrow> True)"

definition disciplined :: "rw_sys \<Rightarrow> rw_act \<Rightarrow> bool" where
  "disciplined s a =
     (case a of Unlock_shared t \<Rightarrow> rd_held s t \<noteq> 0
      | Unlock t \<Rightarrow> wr_held s t \<noteq> 0 \<and> (wr_held s t = 1 \<longrightarrow> rd_held s t = 0)
      | Try_lock t \<Rightarrow> False
      | _ \<Rightarrow> True)"

fun run :: "(rw_sys \<Rightarrow> rw_act \<Rightarrow> bool) \<Rightarrow> rw_sys \<Rightarrow> rw_act list \<Rightarrow> rw_sys option" where
  "run P s [] = Some s"
| "run P s (a # as) =
     (if P s a then (case rw_exec s a of None \<Rightarrow> None | Some s' \<Rightarrow> run P s' as) else None)"

inductive reach :: "(rw_sys \<Rightarrow> rw_act \<Rightarrow> bool) \<Rightarrow> rw_sys \<Rightarrow> bool" for P where
  init: "reach P sys_init"
| step: "reach P s \<Longrightarrow> P s a \<Longrightarrow> rw_step s a s' \<Longrightarrow> reach P s'"

definition rw_next :: "(rw_sys \<Rightarrow> rw_act \<Rightarrow> bool) \<Rightarrow> rw_sys \<Rightarrow> rw_sys \<Rightarrow> bool" where
  "rw_next P s s' \<longleftrightarrow> (\<exists>a. P s a \<and> rw_step s a s')"

definition waiting_writers :: "rw_sys \<Rightarrow> tid set" where
  "waiting_writers s = {t. pcs s t = Wait_exclusive}"

text \<open>
  The invariant of disciplined use: the depth table stores exactly the non-zero
  shared holds, \<open>read_cnt_\<close> is their sum, the writer id names exactly the thread
  with exclusive holds and the write depth counts them, no other thread reads
  while a thread writes, and \<open>write_cnt_\<close> counts the blocked \<open>lock()\<close> calls
  plus the exclusive holds.
\<close>

definition sys_inv :: "rw_sys \<Rightarrow> bool" where
  "sys_inv s \<longleftrightarrow>
     finite {t. rd_held s t \<noteq> 0} \<and> finite (waiting_writers s) \<and>
     read_depth (lk s) = held_map (rd_held s) \<and>
     read_cnt (lk s) = supp_sum (rd_held s) \<and>
     (\<forall>t. wr_held s t \<noteq> 0 \<longleftrightarrow> w_id (lk s) = Some t) \<and>
     write_depth (lk s) = (case w_id (lk s) of None \<Rightarrow> 0 | Some t \<Rightarrow> wr_held s t) \<and>
     (\<forall>t u. w_id (lk s) = Some t \<longrightarrow> rd_held s u \<noteq> 0 \<longrightarrow> u = t) \<and>
     write_cnt (lk s) = card (waiting_writers s) + write_depth (lk s)"

text \<open>
  A lock nobody holds, with no writer id and at least two exclusive requests
  counted: no wait predicate of any thread can hold again.
\<close>

definition stuck :: "rw_sys \<Rightarrow> bool" where
  "stuck s \<longleftrightarrow> w_id (lk s) = None \<and> read_depth (lk s) = Map.empty \<and> 2 \<le> write_cnt (lk s) \<and>
     (\<forall>t. rd_held s t = 0 \<and> wr_held s t = 0)"

text \<open>
  A thread \<open>r\<close> blocked in a recursive \<open>lock_shared()\<close> while it is the only
  reader and an exclusive request is counted: neither it nor any writer can
  proceed again.
\<close>

definition reader_stuck :: "rw_sys \<Rightarrow> tid \<Rightarrow> bool" where
  "reader_stuck s r \<longleftrightarrow> pcs s r = Wait_shared \<and> w_id (lk s) = None \<and>
     dom (read_depth (lk s)) = {r} \<and> read_cnt (lk s) \<noteq> 0 \<and> write_cnt (lk s) \<noteq> 0 \<and>
     (\<forall>t. wr_held s t = 0) \<and> (\<forall>t. t \<noteq> r \<longrightarrow> rd_held s t = 0)"

inductive_cases call_sharedE: "rw_step s (Call_lock_shared t) s'"
inductive_cases acquire_sharedE: "rw_step s (Acquire_shared t) s'"
inductive_cases try_sharedE: "rw_step s (Try_lock_shared t) s'"
inductive_cases release_sharedE: "rw_step s (Unlock_shared t) s'"
inductive_cases call_lockE: "rw_step s (Call_lock t) s'"
inductive_cases acquireE: "rw_step s (Acquire t) s'"
inductive_cases try_exclE: "rw_step s (Try_lock t) s'"
inductive_cases releaseE: "rw_step s (Unlock t) s'"

lemmas rw_stepE = call_sharedE acquire_sharedE try_sharedE release_sharedE
  call_lockE acquireE try_exclE releaseE

subsection \<open>The step function computes the step relation\<close>

lemma rw_exec_iff_step: "rw_exec s a = Some s' \<longleftrightarrow> rw_step s a s'"
proof
  assume "rw_exec s a = Some s'"
  then show "rw_step s a s'"
    by (cases a) (auto intro: rw_step.intros [simplified] split: if_splits option.splits sum.splits prod.splits bool.splits)
next
  assume "rw_step s a s'"
  then show "rw_exec s a = Some s'"
    by (induction rule: rw_step.induct) auto
qed

lemma run_reach: "reach P s \<Longrightarrow> run P s as = Some s' \<Longrightarrow> reach P s'"
proof (induction as arbitrary: s)
  case Nil
  then show ?case by simp
next
  case (Cons a as)
  from Cons.prems obtain s1 where "P s a" "rw_exec s a = Some s1" "run P s1 as = Some s'"
    by (auto split: if_splits option.splits)
  with Cons.prems(1) have "reach P s1"
    by (auto intro: reach.step simp: rw_exec_iff_step)
  from this \<open>run P s1 as = Some s'\<close> show ?case by (rule Cons.IH)
qed

lemma reach_mono:
  assumes "reach P s" and "\<And>s a. P s a \<Longrightarrow> Q s a"
  shows "reach Q s"
  using assms(1) by (induction rule: reach.induct) (auto intro: reach.intros assms(2))

lemma disciplined_well_used: "disciplined s a \<Longrightarrow> well_used s a"
  by (cases a) (auto simp: disciplined_def well_used_def)

subsection \<open>The invariant of disciplined use\<close>

lemma sys_invD:
  assumes "sys_inv s"
  shows "finite {t. rd_held s t \<noteq> 0}" "finite (waiting_writers s)"
    "read_depth (lk s) = held_map (rd_held s)" "read_cnt (lk s) = supp_sum (rd_held s)"
    "wr_held s t \<noteq> 0 \<longleftrightarrow> w_id (lk s) = Some t"
    "write_depth (lk s) = (case w_id (lk s) of None \<Rightarrow> 0 | Some t \<Rightarrow> wr_held s t)"
    "w_id (lk s) = Some t \<Longrightarrow> rd_held s u \<noteq> 0 \<Longrightarrow> u = t"
    "write_cnt (lk s) = card (waiting_writers s) + write_depth (lk s)"
  using assms unfolding sys_inv_def by blast+

lemma sys_invI:
  assumes "finite {t. rd_held s t \<noteq> 0}" "finite (waiting_writers s)"
    "read_depth (lk s) = held_map (rd_held s)" "read_cnt (lk s) = supp_sum (rd_held s)"
    "\<And>t. wr_held s t \<noteq> 0 \<longleftrightarrow> w_id (lk s) = Some t"
    "write_depth (lk s) = (case w_id (lk s) of None \<Rightarrow> 0 | Some t \<Rightarrow> wr_held s t)"
    "\<And>t u. w_id (lk s) = Some t \<Longrightarrow> rd_held s u \<noteq> 0 \<Longrightarrow> u = t"
    "write_cnt (lk s) = card (waiting_writers s) + write_depth (lk s)"
  shows "sys_inv s"
  using assms unfolding sys_inv_def by blast

lemma inv_no_writer:
  assumes inv: "sys_inv s" and wd: "write_depth (lk s) = 0"
  shows "w_id (lk s) = None"
proof (rule ccontr)
  assume "w_id (lk s) \<noteq> None"
  then obtain a where a: "w_id (lk s) = Some a" by auto
  with sys_invD(5) [OF inv, of a] sys_invD(6) [OF inv] wd show False by simp
qed

lemma inv_writer: "sys_inv s \<Longrightarrow> w_id (lk s) = Some t \<Longrightarrow> write_depth (lk s) = wr_held s t \<and> wr_held s t \<noteq> 0"
  by (auto simp: sys_inv_def)

lemma inv_read:
  assumes inv: "sys_inv s" and rd: "readable (lk s) t" and ww: "waiting_writers s' = waiting_writers s"
    and l: "lk s' = rw_read (lk s) t" and r: "rd_held s' = (rd_held s)(t := Suc (rd_held s t))"
    and w: "wr_held s' = wr_held s"
  shows "sys_inv s'"
proof -
  have wid: "w_id (lk s) = None \<or> w_id (lk s) = Some t"
  proof (cases "write_cnt (lk s) = 0")
    case True
    with sys_invD(8) [OF inv] have "write_depth (lk s) = 0" by simp
    then show ?thesis using inv_no_writer [OF inv] by simp
  next
    case False
    with rd show ?thesis by (simp add: readable_iff)
  qed
  have fin: "finite {t. rd_held s t \<noteq> 0}" using inv by (rule sys_invD)
  have sum: "supp_sum (rd_held s') = Suc (supp_sum (rd_held s))"
    using supp_sum_upd [OF fin, of t "Suc (rd_held s t)"] r by simp
  have rd': "read_depth (lk s') = held_map (rd_held s')"
    using sys_invD(3) [OF inv] unfolding l r by (simp add: rw_read_def held_map_upd case_depth_of)
  have cnt': "read_cnt (lk s') = supp_sum (rd_held s')"
    using sys_invD(4) [OF inv] sum unfolding l by (simp add: rw_read_def)
  have excl': "\<forall>t' u. w_id (lk s') = Some t' \<longrightarrow> rd_held s' u \<noteq> 0 \<longrightarrow> u = t'"
    using sys_invD(7) [OF inv] wid unfolding l r by (auto simp: rw_read_def)
  have same: "w_id (lk s') = w_id (lk s)" "write_depth (lk s') = write_depth (lk s)"
    "write_cnt (lk s') = write_cnt (lk s)"
    unfolding l by (simp_all add: rw_read_def)
  have fin': "finite {t. rd_held s' t \<noteq> 0}" unfolding r finite_supp_upd by (rule fin)
  show ?thesis
  proof (rule sys_invI)
    show "finite (waiting_writers s')" using sys_invD(2) [OF inv] ww by simp
    show "\<And>u. wr_held s' u \<noteq> 0 \<longleftrightarrow> w_id (lk s') = Some u"
      unfolding w using sys_invD(5) [OF inv] same by simp
    show "write_depth (lk s') = (case w_id (lk s') of None \<Rightarrow> 0 | Some t \<Rightarrow> wr_held s' t)"
      unfolding w using sys_invD(6) [OF inv] same by simp
    show "write_cnt (lk s') = card (waiting_writers s') + write_depth (lk s')"
      using sys_invD(8) [OF inv] same ww by simp
  qed (use fin' rd' cnt' excl' in auto)
qed

lemma inv_frame:
  assumes "sys_inv s" "lk s' = lk s" "waiting_writers s' = waiting_writers s"
    "rd_held s' = rd_held s" "wr_held s' = wr_held s"
  shows "sys_inv s'"
  using assms(1) unfolding sys_inv_def assms(2-5) .

lemma inv_unlock_shared:
  assumes inv: "sys_inv s" and held: "rd_held s t \<noteq> 0" and ok: "unlock_shared (lk s) t = Inr (l, w)"
    and ww: "waiting_writers s' = waiting_writers s" and lk': "lk s' = l"
    and r: "rd_held s' = (rd_held s)(t := rd_held s t - 1)" and wh: "wr_held s' = wr_held s"
  shows "sys_inv s'"
proof -
  from ok obtain d where d: "read_depth (lk s) t = Some d" "d \<noteq> 0"
    and cnt: "read_cnt l = read_cnt (lk s) - 1" and wc: "write_cnt l = write_cnt (lk s)"
    and wd: "write_depth l = write_depth (lk s)"
    and rdl: "read_depth l = (if d = 1 then (read_depth (lk s))(t := None) else (read_depth (lk s))(t \<mapsto> d - 1))"
    and wid: "w_id l = w_id (lk s) \<or> (w_id l = None \<and> write_depth (lk s) = 0)"
    by (rule unlock_shared_Inr)
  have dR: "d = rd_held s t" using d sys_invD(3) [OF inv] by simp
  have wid': "w_id l = w_id (lk s)" using wid inv_no_writer [OF inv] by auto
  have fin: "finite {t. rd_held s t \<noteq> 0}" using inv by (rule sys_invD)
  have sum: "supp_sum (rd_held s') + rd_held s t = supp_sum (rd_held s) + (rd_held s t - 1)"
    using supp_sum_upd [OF fin, of t "rd_held s t - 1"] r by simp
  have rd': "read_depth (lk s') = held_map (rd_held s')"
    using rdl dR d sys_invD(3) [OF inv] unfolding lk' r by (auto simp: held_map_upd)
  have cnt': "read_cnt (lk s') = supp_sum (rd_held s')"
    using cnt sum sys_invD(4) [OF inv] held supp_sum_ge [OF fin, of t] unfolding lk' by simp
  have excl': "\<And>t' u. w_id (lk s') = Some t' \<Longrightarrow> rd_held s' u \<noteq> 0 \<Longrightarrow> u = t'"
    using sys_invD(7) [OF inv] wid' unfolding lk' r by (auto split: if_splits)
  have fin': "finite {t. rd_held s' t \<noteq> 0}" unfolding r finite_supp_upd by (rule fin)
  show ?thesis
  proof (rule sys_invI)
    show "finite (waiting_writers s')" using sys_invD(2) [OF inv] ww by simp
    show "\<And>u. wr_held s' u \<noteq> 0 \<longleftrightarrow> w_id (lk s') = Some u"
      unfolding wh lk' using sys_invD(5) [OF inv] wid' by simp
    show "write_depth (lk s') = (case w_id (lk s') of None \<Rightarrow> 0 | Some t \<Rightarrow> wr_held s' t)"
      unfolding wh lk' using sys_invD(6) [OF inv] wid' wd by simp
    show "write_cnt (lk s') = card (waiting_writers s') + write_depth (lk s')"
      unfolding ww lk' using sys_invD(8) [OF inv] wc wd by simp
  qed (use fin' rd' cnt' excl' in auto)
qed

lemma inv_call_lock:
  assumes inv: "sys_inv s" and pc: "pcs s t = Outside"
  shows "sys_inv (s\<lparr>lk := lock_enter (lk s), pcs := (pcs s)(t := Wait_exclusive)\<rparr>)" (is "sys_inv ?s")
proof -
  have ww: "waiting_writers ?s = insert t (waiting_writers s)" and notin: "t \<notin> waiting_writers s"
    using pc by (auto simp: waiting_writers_def)
  have fin: "finite (waiting_writers s)" using inv by (rule sys_invD)
  show ?thesis
  proof (rule sys_invI)
    show "write_cnt (lk ?s) = card (waiting_writers ?s) + write_depth (lk ?s)"
      unfolding ww using sys_invD(8) [OF inv] fin notin by (simp add: lock_enter_def)
    show "finite (waiting_writers ?s)" using fin ww by simp
    show "\<And>u. wr_held ?s u \<noteq> 0 \<longleftrightarrow> w_id (lk ?s) = Some u"
      using sys_invD(5) [OF inv] by (simp add: lock_enter_def)
    show "\<And>t u. w_id (lk ?s) = Some t \<Longrightarrow> rd_held ?s u \<noteq> 0 \<Longrightarrow> u = t"
      by (simp add: lock_enter_def) (blast dest: sys_invD(7) [OF inv])
    have "wr_held ?s = wr_held s" by simp
    then show "write_depth (lk ?s) = (case w_id (lk ?s) of None \<Rightarrow> 0 | Some t \<Rightarrow> wr_held ?s t)"
      using sys_invD(6) [OF inv] unfolding \<open>wr_held ?s = wr_held s\<close> by (simp add: lock_enter_def)
  qed (use sys_invD(1-4) [OF inv] in \<open>simp_all add: lock_enter_def\<close>)
qed

lemma inv_acquire:
  assumes inv: "sys_inv s" and pc: "pcs s t = Wait_exclusive" and ok: "lock_wait (lk s) t = Some l"
  shows "sys_inv (s\<lparr>lk := l, pcs := (pcs s)(t := Outside), wr_held := (wr_held s)(t := Suc (wr_held s t))\<rparr>)"
    (is "sys_inv ?s")
proof -
  have wr: "writeable (lk s) t" and l: "l = rw_write (lk s) t"
    using ok by (auto simp: lock_wait_def split: if_splits)
  have fin: "finite {t. rd_held s t \<noteq> 0}" and finw: "finite (waiting_writers s)"
    using inv by (rule sys_invD)+
  have tin: "t \<in> waiting_writers s" using pc by (simp add: waiting_writers_def)
  have ww: "waiting_writers ?s = waiting_writers s - {t}" by (auto simp: waiting_writers_def)
  have cardw: "card (waiting_writers s) = Suc (card (waiting_writers ?s))"
    unfolding ww using card_Suc_Diff1 [OF finw tin] by simp
  have cases: "(w_id (lk s) = None \<and> (\<forall>u. rd_held s u = 0)) \<or> w_id (lk s) = Some t \<or>
      (w_id (lk s) \<noteq> None \<longrightarrow> w_id (lk s) = Some t) \<and> (\<forall>u. rd_held s u \<noteq> 0 \<longrightarrow> u = t)"
  proof -
    have fd: "finite (dom (read_depth (lk s)))" using fin sys_invD(3) [OF inv] by simp
    have "(read_cnt (lk s) = 0 \<and> write_cnt (lk s) = 1) \<or> w_id (lk s) = Some t \<or>
        dom (read_depth (lk s)) = {t}"
      by (rule writeable_iff [OF fd, THEN iffD1, OF wr])
    then consider "read_cnt (lk s) = 0 \<and> write_cnt (lk s) = 1" | "w_id (lk s) = Some t"
      | "dom (read_depth (lk s)) = {t}"
      by blast
    then show ?thesis
    proof cases
      case 1
      with sys_invD(8) [OF inv] cardw have "write_depth (lk s) = 0" by simp
      with inv_no_writer [OF inv] have "w_id (lk s) = None" .
      moreover have "\<forall>u. rd_held s u = 0"
        using 1 sys_invD(4) [OF inv] supp_sum_eq_0_iff [OF fin] by simp
      ultimately show ?thesis by simp
    next
      case 2
      then show ?thesis by simp
    next
      case 3
      then have rt: "\<forall>u. rd_held s u \<noteq> 0 \<longrightarrow> u = t" and "rd_held s t \<noteq> 0"
        using sys_invD(3) [OF inv] by auto
      moreover have "w_id (lk s) \<noteq> None \<longrightarrow> w_id (lk s) = Some t"
        using \<open>rd_held s t \<noteq> 0\<close> by (blast dest: sys_invD(7) [OF inv])
      ultimately show ?thesis by blast
    qed
  qed
  have wid: "w_id (lk s) = None \<or> w_id (lk s) = Some t" using cases by auto
  have others: "wr_held s u = 0" if "u \<noteq> t" for u
  proof -
    have "w_id (lk s) \<noteq> Some u" using wid that by auto
    then show ?thesis using sys_invD(5) [OF inv, of u] by simp
  qed
  have depth: "write_depth (lk s) = wr_held s t"
    using wid sys_invD(5) [OF inv, of t] sys_invD(6) [OF inv] by auto
  have excl: "u = t" if "rd_held s u \<noteq> 0" for u
    using cases that sys_invD(7) [OF inv, of t u] by auto
  show ?thesis
  proof (rule sys_invI)
    show "finite (waiting_writers ?s)" using finw ww by simp
    show "\<And>u. wr_held ?s u \<noteq> 0 \<longleftrightarrow> w_id (lk ?s) = Some u"
      using others by (auto simp: l rw_write_def)
    show "write_depth (lk ?s) = (case w_id (lk ?s) of None \<Rightarrow> 0 | Some t \<Rightarrow> wr_held ?s t)"
      using depth by (simp add: l rw_write_def)
    show "write_cnt (lk ?s) = card (waiting_writers ?s) + write_depth (lk ?s)"
      using sys_invD(8) [OF inv] cardw depth by (simp add: l rw_write_def)
    show "\<And>t' u. w_id (lk ?s) = Some t' \<Longrightarrow> rd_held ?s u \<noteq> 0 \<Longrightarrow> u = t'"
      using excl by (simp add: l rw_write_def)
    show "finite {t. rd_held ?s t \<noteq> 0}" using fin by simp
    show "read_depth (lk ?s) = held_map (rd_held ?s)"
      using sys_invD(3) [OF inv] by (simp add: l rw_write_def)
    show "read_cnt (lk ?s) = supp_sum (rd_held ?s)"
      using sys_invD(4) [OF inv] by (simp add: l rw_write_def)
  qed
qed

lemma inv_unlock:
  assumes inv: "sys_inv s" and held: "wr_held s t \<noteq> 0" and last: "wr_held s t = 1 \<longrightarrow> rd_held s t = 0"
    and ok: "unlock (lk s) t = Inr (l, w)"
  shows "sys_inv (s\<lparr>lk := l, wr_held := (wr_held s)(t := wr_held s t - 1)\<rparr>)" (is "sys_inv ?s")
proof -
  have wid: "w_id (lk s) = Some t" using held sys_invD(5) [OF inv] by simp
  have depth: "write_depth (lk s) = wr_held s t" using wid sys_invD(6) [OF inv] by simp
  note u = unlock_owner [OF wid _ ok, unfolded depth, OF held]
  have rt: "wr_held s t = 1 \<Longrightarrow> read_depth (lk s) t = None"
    using last sys_invD(3) [OF inv] by simp
  have wid': "w_id l = (if wr_held s t = 1 then None else Some t)"
    using u(5) rt by auto
  have others: "wr_held s v = 0" if "v \<noteq> t" for v
    using sys_invD(5) [OF inv, of v] wid that by simp
  show ?thesis
  proof (rule sys_invI)
    show "\<And>v. wr_held ?s v \<noteq> 0 \<longleftrightarrow> w_id (lk ?s) = Some v"
      using others wid' held by auto
    show "write_depth (lk ?s) = (case w_id (lk ?s) of None \<Rightarrow> 0 | Some t \<Rightarrow> wr_held ?s t)"
      using wid' u(2) by simp
    show "write_cnt (lk ?s) = card (waiting_writers ?s) + write_depth (lk ?s)"
      using sys_invD(8) [OF inv] u(1,2) depth held by (simp add: waiting_writers_def)
    show "\<And>t' u. w_id (lk ?s) = Some t' \<Longrightarrow> rd_held ?s u \<noteq> 0 \<Longrightarrow> u = t'"
      using wid wid' by (auto split: if_splits dest: sys_invD(7) [OF inv])
    show "finite (waiting_writers ?s)" using sys_invD(2) [OF inv] by (simp add: waiting_writers_def)
  qed (use sys_invD(1-4,6,8) [OF inv] u in simp_all)
qed

lemma sys_inv_step:
  assumes "rw_step s a s'" and "sys_inv s" and "disciplined s a"
  shows "sys_inv s'"
  using assms
proof (induction rule: rw_step.induct)
  case (call_shared s t)
  show ?case
    by (rule inv_frame [OF call_shared.prems(1)]) (use call_shared.hyps in \<open>auto simp: waiting_writers_def\<close>)
next
  case (acquire_shared s t l)
  from acquire_shared.hyps(2) have "readable (lk s) t" "l = rw_read (lk s) t"
    by (auto simp: lock_shared_def split: if_splits)
  then show ?case
    by (rule_tac inv_read [OF acquire_shared.prems(1)]) (use acquire_shared.hyps in \<open>auto simp: waiting_writers_def\<close>)
next
  case (try_shared s t l)
  from try_shared.hyps(2) have "readable (lk s) t" "l = rw_read (lk s) t"
    by (auto simp: try_lock_shared_def split: if_splits)
  then show ?case
    by (rule_tac inv_read [OF try_shared.prems(1)]) (auto simp: waiting_writers_def)
next
  case (try_shared_fail s t l)
  from try_shared_fail.hyps(2) have "l = lk s" by (rule try_fail_same)
  then show ?case by (rule_tac inv_frame [OF try_shared_fail.prems(1)]) auto
next
  case (release_shared s t l w)
  from release_shared.prems(2) have held: "rd_held s t \<noteq> 0" by (simp add: disciplined_def)
  show ?case
    by (rule inv_unlock_shared [OF release_shared.prems(1) held release_shared.hyps(2)])
      (simp_all add: waiting_writers_def)
next
  case (call_lock s t)
  show ?case by (rule inv_call_lock [OF call_lock.prems(1) call_lock.hyps])
next
  case (acquire s t l)
  show ?case by (rule inv_acquire [OF acquire.prems(1) acquire.hyps])
next
  case (try_excl s t l)
  then show ?case by (simp add: disciplined_def)
next
  case (try_excl_fail s t l)
  then show ?case by (simp add: disciplined_def)
next
  case (release s t l w)
  from release.prems(2) have "wr_held s t \<noteq> 0" "wr_held s t = 1 \<longrightarrow> rd_held s t = 0"
    by (simp_all add: disciplined_def)
  from inv_unlock [OF release.prems(1) this release.hyps(2)] show ?case .
qed

lemma sys_inv_init: "sys_inv sys_init"
  by (simp add: sys_inv_def sys_init_def rw_init_def waiting_writers_def)

lemma reach_sys_inv: "reach disciplined s \<Longrightarrow> sys_inv s"
  by (induction rule: reach.induct) (auto intro: sys_inv_init sys_inv_step)

lemma enabled_iff: "(\<exists>s'. rw_step s a s') \<longleftrightarrow> rw_exec s a \<noteq> None"
  by (auto simp: rw_exec_iff_step [symmetric])

lemma sys_inv_wf: "sys_inv s \<Longrightarrow> rw_wf (lk s)"
proof -
  assume inv: "sys_inv s"
  have "write_depth (lk s) = 0 \<longleftrightarrow> w_id (lk s) = None"
    using inv_no_writer [OF inv] sys_invD(5,6) [OF inv] by (cases "w_id (lk s)") auto
  then show ?thesis
    using sys_invD(1,3,4) [OF inv] by (auto simp: rw_wf_def)
qed

lemma stuck_step:
  assumes "rw_step s a s'" and "stuck s" and "well_used s a"
  shows "stuck s' \<and> (\<forall>t. pcs s t \<noteq> Outside \<longrightarrow> pcs s' t = pcs s t)"
  using assms
proof (induction rule: rw_step.induct)
  case (acquire_shared s t l)
  then show ?case by (auto simp: stuck_def lock_shared_def readable_def)
next
  case (try_shared s t l)
  then show ?case by (auto simp: stuck_def try_lock_shared_def readable_def)
next
  case (try_shared_fail s t l)
  then show ?case by (auto simp: stuck_def dest: try_fail_same)
next
  case (acquire s t l)
  then show ?case by (auto simp: stuck_def lock_wait_def writeable_eq)
next
  case (try_excl s t l)
  then show ?case by (auto simp: stuck_def try_lock_def writeable_eq)
next
  case (try_excl_fail s t l)
  then show ?case by (auto simp: stuck_def dest: try_fail_same)
qed (auto simp: stuck_def well_used_def lock_enter_def)

lemma stuck_steps:
  assumes "(rw_next well_used)\<^sup>*\<^sup>* s s'" and "stuck s"
  shows "stuck s' \<and> (\<forall>t. pcs s t \<noteq> Outside \<longrightarrow> pcs s' t = pcs s t)"
  using assms
proof (induction rule: rtranclp_induct)
  case base
  then show ?case by simp
next
  case (step y z)
  then obtain a where "well_used y a" "rw_step y a z" by (auto simp: rw_next_def)
  with step show ?case using stuck_step by metis
qed

lemma reader_stuck_step:
  assumes "rw_step s a s'" and "reader_stuck s r" and "well_used s a"
  shows "reader_stuck s' r \<and> (\<forall>t. pcs s t \<noteq> Outside \<longrightarrow> pcs s' t = pcs s t)"
  using assms
proof (induction rule: rw_step.induct)
  case (call_shared s t)
  then show ?case by (auto simp: reader_stuck_def)
next
  case (acquire_shared s t l)
  then show ?case by (auto simp: reader_stuck_def lock_shared_def readable_def)
next
  case (try_shared s t l)
  then show ?case by (auto simp: reader_stuck_def try_lock_shared_def readable_def)
next
  case (try_shared_fail s t l)
  then show ?case by (auto simp: reader_stuck_def dest: try_fail_same)
next
  case (release_shared s t l w)
  then show ?case by (cases "t = r") (auto simp: reader_stuck_def well_used_def)
next
  case (call_lock s t)
  then show ?case by (auto simp: reader_stuck_def lock_enter_def)
next
  case (acquire s t l)
  then show ?case by (cases "t = r") (auto simp: reader_stuck_def lock_wait_def writeable_eq)
next
  case (try_excl s t l)
  then show ?case by (cases "t = r") (auto simp: reader_stuck_def try_lock_def writeable_eq)
next
  case (try_excl_fail s t l)
  then show ?case by (auto simp: reader_stuck_def dest: try_fail_same)
next
  case (release s t l w)
  then show ?case by (auto simp: reader_stuck_def well_used_def)
qed

lemma reader_stuck_steps:
  assumes "(rw_next well_used)\<^sup>*\<^sup>* s s'" and "reader_stuck s r"
  shows "reader_stuck s' r \<and> (\<forall>t. pcs s t \<noteq> Outside \<longrightarrow> pcs s' t = pcs s t)"
  using assms
proof (induction rule: rtranclp_induct)
  case base
  then show ?case by simp
next
  case (step y z)
  then obtain a where "well_used y a" "rw_step y a z" by (auto simp: rw_next_def)
  with step show ?case using reader_stuck_step by metis
qed

subsection \<open>Properties of concurrent use\<close>

text \<open>
  C1. Mutual exclusion under disciplined use: while a thread holds the lock
  exclusively, no other thread holds it, neither exclusively nor shared.
\<close>

theorem rw_mutual_exclusion:
  assumes "reach disciplined s" and "wr_held s t \<noteq> 0" and "wr_held s u \<noteq> 0 \<or> rd_held s u \<noteq> 0"
  shows "u = t"
proof -
  have inv: "sys_inv s" using assms(1) by (rule reach_sys_inv)
  have wt: "w_id (lk s) = Some t" using sys_invD(5) [OF inv] assms(2) by simp
  show ?thesis
    using assms(3)
  proof
    assume "wr_held s u \<noteq> 0"
    with sys_invD(5) [OF inv] wt show ?thesis by simp
  next
    assume "rd_held s u \<noteq> 0"
    with sys_invD(7) [OF inv wt] show ?thesis .
  qed
qed

theorem rw_mutual_exclusion_witness:
  "\<exists>s. run disciplined sys_init [Call_lock 0, Acquire 0, Call_lock_shared 0, Acquire_shared 0] = Some s \<and>
       reach disciplined s \<and> wr_held s 0 \<noteq> 0 \<and> rd_held s 0 \<noteq> 0 \<and> (0::tid) = 0"
proof -
  obtain s where r: "run disciplined sys_init [Call_lock 0, Acquire 0, Call_lock_shared 0, Acquire_shared 0] = Some s"
    and h: "wr_held s 0 = 1" "rd_held s 0 = 1"
    by (simp add: disciplined_def sys_init_def rw_defs)
  have reach: "reach disciplined s" by (rule run_reach [OF reach.init r])
  have "(0::tid) = 0" using rw_mutual_exclusion [OF reach, of 0 0] h by simp
  with r reach h show ?thesis by auto
qed

text \<open>
  C2. \<open>try_lock\<close> breaks mutual exclusion: after thread 1 has taken the lock
  with \<open>lock()\<close>, thread 2's \<open>try_lock()\<close> succeeds, and both hold it exclusively.
\<close>

theorem try_lock_breaks_exclusion:
  "\<exists>s. run well_used sys_init [Call_lock 1, Acquire 1, Try_lock 2] = Some s \<and>
       reach well_used s \<and> wr_held s 1 = 1 \<and> wr_held s 2 = 1"
proof -
  obtain s where r: "run well_used sys_init [Call_lock 1, Acquire 1, Try_lock 2] = Some s"
    and h: "wr_held s 1 = 1" "wr_held s 2 = 1"
    by (simp add: well_used_def sys_init_def rw_defs)
  with run_reach [OF reach.init r] show ?thesis by auto
qed

text \<open>
  C3. Without the release order of disciplined use, mutual exclusion fails even
  without \<open>try_lock\<close>: a thread that upgrades and then releases its exclusive hold
  before its shared one keeps the writer id, re-acquires the lock exclusively while
  another thread reads, and that reader then also acquires it exclusively.
\<close>

theorem upgrade_release_breaks_exclusion:
  "\<exists>s1 s2.
     run well_used sys_init [Call_lock_shared 0, Acquire_shared 0, Call_lock 0, Acquire 0, Unlock 0,
       Call_lock_shared 2, Acquire_shared 2, Call_lock 0, Acquire 0] = Some s1 \<and>
     wr_held s1 0 = 1 \<and> rd_held s1 2 = 1 \<and>
     run well_used s1 [Unlock_shared 0, Call_lock 2, Acquire 2] = Some s2 \<and>
     reach well_used s2 \<and> wr_held s2 0 = 1 \<and> wr_held s2 2 = 1"
proof -
  obtain s1 where r1: "run well_used sys_init [Call_lock_shared 0, Acquire_shared 0, Call_lock 0, Acquire 0,
       Unlock 0, Call_lock_shared 2, Acquire_shared 2, Call_lock 0, Acquire 0] = Some s1"
    and h1: "wr_held s1 0 = 1" "rd_held s1 2 = 1"
    and e1: "s1 = \<lparr>lk = \<lparr>read_cnt = 2, write_cnt = 1, write_depth = 1, w_id = Some 0,
                          rd_map = Mapping.update 2 1 (Mapping.update 0 1 Mapping.empty)\<rparr>,
                pcs = (\<lambda>_. Outside), rd_held = (\<lambda>_. 0)(0 := 1, 2 := 1), wr_held = (\<lambda>_. 0)(0 := 1)\<rparr>"
    by (simp add: well_used_def sys_init_def rw_defs Let_def fun_upd_twist fun_eq_iff)
  obtain s2 where r2: "run well_used s1 [Unlock_shared 0, Call_lock 2, Acquire 2] = Some s2"
    and h2: "wr_held s2 0 = 1" "wr_held s2 2 = 1"
    unfolding e1 by (simp add: well_used_def rw_defs Let_def)
  have "reach well_used s1" by (rule run_reach [OF reach.init r1])
  from run_reach [OF this r2] r1 r2 h1 h2 show ?thesis by blast
qed

text \<open>
  C4. Two writers waiting when the lock is released deadlock it: after thread 0
  releases its exclusive hold with threads 1 and 2 blocked in \<open>lock()\<close>,
  \<open>write_cnt_\<close> is 2, so \<open>writeable()\<close> never holds again, and no continuation by
  threads that release only what they hold lets either of them proceed.
\<close>

theorem two_writers_deadlock:
  "\<exists>s. run disciplined sys_init [Call_lock 0, Acquire 0, Call_lock 1, Call_lock 2, Unlock 0] = Some s \<and>
       reach disciplined s \<and>
       (\<forall>s'. (rw_next well_used)\<^sup>*\<^sup>* s s' \<longrightarrow>
          pcs s' 1 = Wait_exclusive \<and> pcs s' 2 = Wait_exclusive \<and> (\<forall>t. wr_held s' t = 0))"
proof -
  obtain s where r: "run disciplined sys_init [Call_lock 0, Acquire 0, Call_lock 1, Call_lock 2, Unlock 0] = Some s"
    and st: "stuck s" and p: "pcs s 1 = Wait_exclusive" "pcs s 2 = Wait_exclusive"
    by (simp add: disciplined_def sys_init_def rw_defs Let_def stuck_def)
  have "pcs s' 1 = Wait_exclusive \<and> pcs s' 2 = Wait_exclusive \<and> (\<forall>t. wr_held s' t = 0)"
    if "(rw_next well_used)\<^sup>*\<^sup>* s s'" for s'
    using stuck_steps [OF that st] p by (simp add: stuck_def)
  with r run_reach [OF reach.init r] show ?thesis by blast
qed

theorem two_writers_deadlock_witness:
  "\<exists>s. run disciplined sys_init [Call_lock 0, Acquire 0, Call_lock 1, Call_lock 2, Unlock 0] = Some s \<and>
       pcs s 1 = Wait_exclusive \<and> pcs s 2 = Wait_exclusive"
  using two_writers_deadlock by blast

text \<open>
  C5. Recursive shared acquisition deadlocks behind a waiting writer: thread 0
  holds the lock shared, thread 1 calls \<open>lock()\<close>, and thread 0's second
  \<open>lock_shared()\<close> blocks because \<open>write_cnt_\<close> is not zero; thread 1 waits for
  thread 0's shared hold, so neither ever proceeds.
\<close>

theorem recursive_read_deadlock:
  "\<exists>s. run disciplined sys_init [Call_lock_shared 0, Acquire_shared 0, Call_lock 1, Call_lock_shared 0] = Some s \<and>
       reach disciplined s \<and> rd_held s 0 = 1 \<and>
       (\<forall>s'. (rw_next well_used)\<^sup>*\<^sup>* s s' \<longrightarrow> pcs s' 0 = Wait_shared \<and> pcs s' 1 = Wait_exclusive)"
proof -
  obtain s where r: "run disciplined sys_init [Call_lock_shared 0, Acquire_shared 0, Call_lock 1, Call_lock_shared 0] = Some s"
    and st: "reader_stuck s 0" and p: "pcs s 1 = Wait_exclusive" and h: "rd_held s 0 = 1"
    by (simp add: disciplined_def sys_init_def rw_defs Let_def reader_stuck_def)
  have "pcs s' 0 = Wait_shared \<and> pcs s' 1 = Wait_exclusive" if "(rw_next well_used)\<^sup>*\<^sup>* s s'" for s'
    using reader_stuck_steps [OF that st] p by (simp add: reader_stuck_def)
  with r h run_reach [OF reach.init r] show ?thesis by blast
qed

theorem recursive_read_deadlock_witness:
  "\<exists>s. run disciplined sys_init [Call_lock_shared 0, Acquire_shared 0, Call_lock 1, Call_lock_shared 0] = Some s \<and>
       pcs s 0 = Wait_shared \<and> pcs s 1 = Wait_exclusive"
  using recursive_read_deadlock by blast

text \<open>
  C6. Under disciplined use every reachable state satisfies the data-model
  invariant of the specification and the invariant \<open>sys_inv\<close> relating the lock's
  counters to the threads' holds and blocked calls.
\<close>

theorem disciplined_invariant:
  "reach disciplined s \<Longrightarrow> rw_wf (lk s) \<and> sys_inv s"
  using reach_sys_inv sys_inv_wf by blast

theorem disciplined_invariant_witness:
  "\<exists>s. run disciplined sys_init [Call_lock_shared 0, Acquire_shared 0, Call_lock 0, Acquire 0] = Some s \<and>
       rw_wf (lk s) \<and> sys_inv s"
proof -
  obtain s where r: "run disciplined sys_init [Call_lock_shared 0, Acquire_shared 0, Call_lock 0, Acquire 0] = Some s"
    by (simp add: disciplined_def sys_init_def rw_defs)
  with disciplined_invariant [OF run_reach [OF reach.init r]] show ?thesis by blast
qed

text \<open>
  C7. When no thread holds the lock, a thread blocked in \<open>lock()\<close> can acquire it
  exactly when it is the only thread blocked there.
\<close>

theorem writer_progress_iff:
  assumes "reach disciplined s" and "\<forall>u. rd_held s u = 0 \<and> wr_held s u = 0"
    and "pcs s t = Wait_exclusive"
  shows "(\<exists>s'. rw_step s (Acquire t) s') \<longleftrightarrow> waiting_writers s = {t}"
proof -
  have inv: "sys_inv s" using assms(1) by (rule reach_sys_inv)
  have wid: "w_id (lk s) = None"
    using sys_invD(5) [OF inv] assms(2) by (cases "w_id (lk s)") auto
  have z: "rd_held s = (\<lambda>_. 0)" using assms(2) by auto
  have rd: "read_depth (lk s) = Map.empty" and rc: "read_cnt (lk s) = 0"
    using sys_invD(3,4) [OF inv] z by simp_all
  have wc: "write_cnt (lk s) = card (waiting_writers s)"
    using sys_invD(6,8) [OF inv] wid by simp
  have tin: "t \<in> waiting_writers s" using assms(3) by (simp add: waiting_writers_def)
  have fin: "finite (waiting_writers s)" using inv by (rule sys_invD)
  have "(\<exists>s'. rw_step s (Acquire t) s') \<longleftrightarrow> card (waiting_writers s) = 1"
    using assms(3) wid rd rc wc by (simp add: enabled_iff lock_wait_def writeable_eq split: option.splits)
  also have "\<dots> \<longleftrightarrow> waiting_writers s = {t}"
    using tin fin by (auto simp: card_1_singleton_iff)
  finally show ?thesis .
qed

theorem writer_progress_iff_witness:
  "\<exists>s. run disciplined sys_init [Call_lock 0] = Some s \<and> reach disciplined s \<and>
       (\<forall>u. rd_held s u = 0 \<and> wr_held s u = 0) \<and> pcs s 0 = Wait_exclusive \<and>
       waiting_writers s = {0} \<and> (\<exists>s'. rw_step s (Acquire 0) s')"
proof -
  obtain s where r: "run disciplined sys_init [Call_lock 0] = Some s"
    and h: "\<forall>u. rd_held s u = 0 \<and> wr_held s u = 0" "pcs s 0 = Wait_exclusive" "waiting_writers s = {0}"
    by (simp add: disciplined_def sys_init_def rw_defs waiting_writers_def)
  have reach: "reach disciplined s" by (rule run_reach [OF reach.init r])
  from writer_progress_iff [OF reach h(1,2)] h(3) r reach h show ?thesis by blast
qed

text \<open>
  C8. While a thread is blocked in \<open>lock()\<close>, every thread that is not the
  writer is refused a shared acquisition: the reservation \<open>++write_cnt_\<close> on entry
  to \<open>lock()\<close> keeps new readers out.
\<close>

theorem waiting_writer_blocks_readers:
  assumes "reach disciplined s" and "waiting_writers s \<noteq> {}" and "w_id (lk s) \<noteq> Some t"
  shows "\<not> (\<exists>s'. rw_step s (Acquire_shared t) s')"
proof -
  have inv: "sys_inv s" using assms(1) by (rule reach_sys_inv)
  have "write_cnt (lk s) \<noteq> 0"
    using sys_invD(2,8) [OF inv] assms(2) by simp
  with assms(3) show ?thesis
    by (simp add: enabled_iff lock_shared_def readable_def)
qed

theorem waiting_writer_blocks_readers_witness:
  "\<exists>s. run disciplined sys_init [Call_lock 0, Acquire 0, Call_lock 1, Call_lock_shared 2] = Some s \<and>
       reach disciplined s \<and> waiting_writers s \<noteq> {} \<and> w_id (lk s) \<noteq> Some 2 \<and>
       pcs s 2 = Wait_shared \<and> \<not> (\<exists>s'. rw_step s (Acquire_shared 2) s')"
proof -
  obtain s where r: "run disciplined sys_init [Call_lock 0, Acquire 0, Call_lock 1, Call_lock_shared 2] = Some s"
    and h: "waiting_writers s \<noteq> {}" "w_id (lk s) \<noteq> Some 2" "pcs s 2 = Wait_shared"
    by (simp add: disciplined_def sys_init_def rw_defs waiting_writers_def)
  have reach: "reach disciplined s" by (rule run_reach [OF reach.init r])
  from waiting_writer_blocks_readers [OF reach h(1,2)] r reach h show ?thesis by blast
qed

text \<open>
  C9. The upgrade scenario of the specification: thread 0 takes the lock shared
  and, as the only reader, exclusively without blocking; thread 1's \<open>lock()\<close>
  then blocks, and acquires the lock once thread 0 has released both holds.
\<close>

theorem upgrade_scenario:
  "\<exists>s1 s2.
     run disciplined sys_init [Call_lock_shared 0, Acquire_shared 0, Call_lock 0, Acquire 0, Call_lock 1] = Some s1 \<and>
     rd_held s1 0 = 1 \<and> wr_held s1 0 = 1 \<and> \<not> (\<exists>s'. rw_step s1 (Acquire 1) s') \<and>
     run disciplined s1 [Unlock_shared 0, Unlock 0, Acquire 1] = Some s2 \<and>
     wr_held s2 1 = 1 \<and> wr_held s2 0 = 0 \<and> rd_held s2 0 = 0"
proof -
  obtain s1 where r1: "run disciplined sys_init [Call_lock_shared 0, Acquire_shared 0, Call_lock 0, Acquire 0, Call_lock 1] = Some s1"
    and h1: "rd_held s1 0 = 1" "wr_held s1 0 = 1" "\<not> (\<exists>s'. rw_step s1 (Acquire 1) s')"
    and e1: "s1 = \<lparr>lk = \<lparr>read_cnt = 1, write_cnt = 2, write_depth = 1, w_id = Some 0,
                          rd_map = Mapping.update 0 1 Mapping.empty\<rparr>,
                pcs = (\<lambda>_. Outside)(1 := Wait_exclusive), rd_held = (\<lambda>_. 0)(0 := 1),
                wr_held = (\<lambda>_. 0)(0 := 1)\<rparr>"
    by (simp add: disciplined_def sys_init_def rw_defs enabled_iff fun_eq_iff)
  obtain s2 where r2: "run disciplined s1 [Unlock_shared 0, Unlock 0, Acquire 1] = Some s2"
    and h2: "wr_held s2 1 = 1" "wr_held s2 0 = 0" "rd_held s2 0 = 0"
    unfolding e1 by (simp add: disciplined_def rw_defs Let_def)
  from r1 h1 r2 h2 show ?thesis by blast
qed

text \<open>
  C10. Reentrancy of an exclusive hold: in every state reached by disciplined
  use, a thread that holds the lock exclusively and calls \<open>lock_shared()\<close> or
  \<open>lock()\<close> again acquires it at once, whatever the other threads hold or wait
  for, and its hold count grows by one.
\<close>

theorem writer_reentrant:
  assumes "reach disciplined s" and "pcs s t = Outside" and "wr_held s t \<noteq> 0"
  shows "(\<exists>s1 s2. rw_step s (Call_lock_shared t) s1 \<and> rw_step s1 (Acquire_shared t) s2 \<and>
            rd_held s2 t = Suc (rd_held s t)) \<and>
         (\<exists>s1 s2. rw_step s (Call_lock t) s1 \<and> rw_step s1 (Acquire t) s2 \<and>
            wr_held s2 t = Suc (wr_held s t))"
proof -
  have w: "w_id (lk s) = Some t" using sys_invD(5) [OF reach_sys_inv [OF assms(1)]] assms(3) by blast
  define r1 where "r1 = s\<lparr>pcs := (pcs s)(t := Wait_shared)\<rparr>"
  define r2 where "r2 = r1\<lparr>lk := rw_read (lk s) t, pcs := (pcs r1)(t := Outside),
    rd_held := (rd_held r1)(t := Suc (rd_held r1 t))\<rparr>"
  define x1 where "x1 = s\<lparr>lk := lock_enter (lk s), pcs := (pcs s)(t := Wait_exclusive)\<rparr>"
  define x2 where "x2 = x1\<lparr>lk := rw_write (lock_enter (lk s)) t, pcs := (pcs x1)(t := Outside),
    wr_held := (wr_held x1)(t := Suc (wr_held x1 t))\<rparr>"
  have a1: "rw_step s (Call_lock_shared t) r1" unfolding r1_def by (rule rw_step.call_shared [OF assms(2)])
  have "lock_shared (lk r1) t = Some (rw_read (lk s) t)"
    using w by (simp add: r1_def lock_shared_def readable_def)
  then have a2: "rw_step r1 (Acquire_shared t) r2"
    unfolding r2_def by (intro rw_step.acquire_shared) (simp_all add: r1_def)
  have b1: "rw_step s (Call_lock t) x1" unfolding x1_def by (rule rw_step.call_lock [OF assms(2)])
  have "lock_wait (lk x1) t = Some (rw_write (lock_enter (lk s)) t)"
    using w by (simp add: x1_def lock_wait_def writeable_def lock_enter_def)
  then have b2: "rw_step x1 (Acquire t) x2"
    unfolding x2_def by (intro rw_step.acquire) (simp_all add: x1_def)
  have "rd_held r2 t = Suc (rd_held s t)" "wr_held x2 t = Suc (wr_held s t)"
    by (simp_all add: r1_def r2_def x1_def x2_def)
  then show ?thesis using a1 a2 b1 b2 by blast
qed

theorem writer_reentrant_witness:
  "\<exists>s. run disciplined sys_init [Call_lock 0, Acquire 0, Call_lock_shared 1] = Some s \<and>
     pcs s 1 = Wait_shared \<and>
     (\<exists>s1 s2. rw_step s (Call_lock_shared 0) s1 \<and> rw_step s1 (Acquire_shared 0) s2 \<and> rd_held s2 0 = 1) \<and>
     (\<exists>s1 s2. rw_step s (Call_lock 0) s1 \<and> rw_step s1 (Acquire 0) s2 \<and> wr_held s2 0 = 2)"
proof -
  obtain s where r: "run disciplined sys_init [Call_lock 0, Acquire 0, Call_lock_shared 1] = Some s"
    by (simp add: disciplined_def sys_init_def rw_defs)
  have h: "pcs s 0 = Outside" "wr_held s 0 = 1" "rd_held s 0 = 0" "pcs s 1 = Wait_shared"
    using r by (auto simp: disciplined_def sys_init_def rw_defs)
  show ?thesis unfolding numeral_2_eq_2
    using writer_reentrant [OF run_reach [OF reach.init r] h(1)] h r by auto
qed

end
