(* ===== verification/RW_Guards.thy ===== *)
theory RW_Guards
  imports RW_Lock
begin

text \<open>
  The RAII adaptors of \<open>src/shared_mutex.h\<close> (\<open>scoped_write_guard\<close>,
  \<open>scoped_read_guard\<close>, \<open>unique_write_guard\<close>, \<open>unique_read_guard\<close>), seen from
  the one thread that owns the guard.  They use the lock only through its four
  primitive calls, which are given here as the interface the guards rely on: a
  call that would wait returns \<open>Blocked\<close> (in a single thread nothing can wake
  it), a failed assertion of the lock or of the guard is \<open>Lock_error Fatal\<close>.
  A scoped guard's lifetime is a section: constructor, the body of the scope,
  destructor.  The copy constructors of both unique guards and the move
  constructor of \<open>unique_read_guard\<close> name a member \<open>rw_\<close> that the classes do
  not have; they do not compile and are not modelled.
\<close>

datatype guard_error = Lock_error rw_error | Blocked

definition lock_call :: "rw_lock \<Rightarrow> tid \<Rightarrow> guard_error + rw_lock" where
  "lock_call s t = (case lock_wait (lock_enter s) t of None \<Rightarrow> Inl Blocked | Some s' \<Rightarrow> Inr s')"

definition lock_shared_call :: "rw_lock \<Rightarrow> tid \<Rightarrow> guard_error + rw_lock" where
  "lock_shared_call s t = (case lock_shared s t of None \<Rightarrow> Inl Blocked | Some s' \<Rightarrow> Inr s')"

definition unlock_call :: "rw_lock \<Rightarrow> tid \<Rightarrow> guard_error + rw_lock" where
  "unlock_call s t = (case unlock s t of Inl e \<Rightarrow> Inl (Lock_error e) | Inr (s', w) \<Rightarrow> Inr s')"

definition unlock_shared_call :: "rw_lock \<Rightarrow> tid \<Rightarrow> guard_error + rw_lock" where
  "unlock_shared_call s t =
     (case unlock_shared s t of Inl e \<Rightarrow> Inl (Lock_error e) | Inr (s', w) \<Rightarrow> Inr s')"

text \<open>A scope holding a \<open>scoped_write_guard\<close> or a \<open>scoped_read_guard\<close>.\<close>

definition scoped_write_section ::
  "(rw_lock \<Rightarrow> guard_error + rw_lock) \<Rightarrow> rw_lock \<Rightarrow> tid \<Rightarrow> guard_error + rw_lock" where
  "scoped_write_section body s t =
     (case lock_call s t of Inl e \<Rightarrow> Inl e
      | Inr s1 \<Rightarrow> (case body s1 of Inl e \<Rightarrow> Inl e | Inr s2 \<Rightarrow> unlock_call s2 t))"

definition scoped_read_section ::
  "(rw_lock \<Rightarrow> guard_error + rw_lock) \<Rightarrow> rw_lock \<Rightarrow> tid \<Rightarrow> guard_error + rw_lock" where
  "scoped_read_section body s t =
     (case lock_shared_call s t of Inl e \<Rightarrow> Inl e
      | Inr s1 \<Rightarrow> (case body s1 of Inl e \<Rightarrow> Inl e | Inr s2 \<Rightarrow> unlock_shared_call s2 t))"

record uw_guard =
  uw_owns :: bool

definition uwg_lock :: "uw_guard \<Rightarrow> rw_lock \<Rightarrow> tid \<Rightarrow> guard_error + uw_guard \<times> rw_lock" where
  "uwg_lock g s t =
     (if uw_owns g then Inl (Lock_error Fatal)
      else case lock_call s t of Inl e \<Rightarrow> Inl e | Inr s' \<Rightarrow> Inr (g\<lparr>uw_owns := True\<rparr>, s'))"

definition uwg_create :: "rw_lock \<Rightarrow> tid \<Rightarrow> guard_error + uw_guard \<times> rw_lock" where
  "uwg_create s t = uwg_lock \<lparr>uw_owns = False\<rparr> s t"

definition uwg_unlock :: "uw_guard \<Rightarrow> rw_lock \<Rightarrow> tid \<Rightarrow> guard_error + uw_guard \<times> rw_lock" where
  "uwg_unlock g s t =
     (if \<not> uw_owns g then Inl (Lock_error Fatal)
      else case unlock_call s t of Inl e \<Rightarrow> Inl e | Inr s' \<Rightarrow> Inr (g\<lparr>uw_owns := False\<rparr>, s'))"

definition uwg_try_lock :: "uw_guard \<Rightarrow> rw_lock \<Rightarrow> tid \<Rightarrow> guard_error + bool \<times> uw_guard \<times> rw_lock" where
  "uwg_try_lock g s t =
     (if uw_owns g then Inl (Lock_error Fatal)
      else case try_lock s t of (b, s') \<Rightarrow> Inr (b, g\<lparr>uw_owns := b\<rparr>, s'))"

definition uwg_destroy :: "uw_guard \<Rightarrow> rw_lock \<Rightarrow> tid \<Rightarrow> guard_error + rw_lock" where
  "uwg_destroy g s t = (if uw_owns g then unlock_call s t else Inr s)"

text \<open>The move constructor: the new guard takes the ownership flag, the source loses it.\<close>

definition uwg_move :: "uw_guard \<Rightarrow> uw_guard \<times> uw_guard" where
  "uwg_move g = (\<lparr>uw_owns = uw_owns g\<rparr>, g\<lparr>uw_owns := False\<rparr>)"

record ur_guard =
  ur_owns_ref :: int

definition urg_lock :: "ur_guard \<Rightarrow> rw_lock \<Rightarrow> tid \<Rightarrow> guard_error + ur_guard \<times> rw_lock" where
  "urg_lock g s t =
     (case lock_shared_call s t of Inl e \<Rightarrow> Inl e
      | Inr s' \<Rightarrow> Inr (g\<lparr>ur_owns_ref := ur_owns_ref g + 1\<rparr>, s'))"

definition urg_create :: "rw_lock \<Rightarrow> tid \<Rightarrow> guard_error + ur_guard \<times> rw_lock" where
  "urg_create s t = urg_lock \<lparr>ur_owns_ref = 0\<rparr> s t"

definition urg_unlock :: "ur_guard \<Rightarrow> rw_lock \<Rightarrow> tid \<Rightarrow> guard_error + ur_guard \<times> rw_lock" where
  "urg_unlock g s t =
     (if \<not> 0 < ur_owns_ref g then Inl (Lock_error Fatal)
      else case unlock_shared_call s t of Inl e \<Rightarrow> Inl e
           | Inr s' \<Rightarrow> Inr (g\<lparr>ur_owns_ref := ur_owns_ref g - 1\<rparr>, s'))"

definition urg_try_lock :: "ur_guard \<Rightarrow> rw_lock \<Rightarrow> tid \<Rightarrow> bool \<times> ur_guard \<times> rw_lock" where
  "urg_try_lock g s t =
     (case try_lock_shared s t of
        (True, s') \<Rightarrow> (True, g\<lparr>ur_owns_ref := ur_owns_ref g + 1\<rparr>, s')
      | (False, s') \<Rightarrow> (False, g, s'))"

text \<open>
  The destructor's loop \<open>while (owns_ref_-- > 0) unlock_shared();\<close>: the test
  reads the counter before the decrement, so the loop leaves it at \<open>-1\<close>.
\<close>

function urg_release :: "int \<Rightarrow> rw_lock \<Rightarrow> tid \<Rightarrow> guard_error + int \<times> rw_lock" where
  "urg_release n s t =
     (if 0 < n then
        (case unlock_shared_call s t of Inl e \<Rightarrow> Inl e | Inr s' \<Rightarrow> urg_release (n - 1) s' t)
      else Inr (n - 1, s))"
  by pat_completeness auto
termination
  by (relation "measure (\<lambda>(n, s, t). nat n)") auto

definition urg_destroy :: "ur_guard \<Rightarrow> rw_lock \<Rightarrow> tid \<Rightarrow> guard_error + rw_lock" where
  "urg_destroy g s t = (case urg_release (ur_owns_ref g) s t of Inl e \<Rightarrow> Inl e | Inr (n, s') \<Rightarrow> Inr s')"

definition rw_read_times :: "nat \<Rightarrow> rw_lock \<Rightarrow> tid \<Rightarrow> rw_lock" where
  "rw_read_times n s t = ((\<lambda>x. rw_read x t) ^^ n) s"

declare urg_release.simps [simp del]

lemma rw_read_times_wf: "rw_wf s \<Longrightarrow> rw_wf (rw_read_times n s t)"
  by (induction n) (auto simp: rw_read_times_def rw_read_wf)

lemma urg_release_reads:
  assumes "rw_wf s"
  shows "urg_release (int n) (rw_read_times n s t) t = Inr (-1, s)"
  using assms
proof (induction n)
  case 0
  then show ?case by (simp add: urg_release.simps rw_read_times_def)
next
  case (Suc n)
  have wf: "rw_wf (rw_read_times n s t)" using Suc.prems by (rule rw_read_times_wf)
  obtain w where "unlock_shared (rw_read (rw_read_times n s t) t) t = Inr (rw_read_times n s t, w)"
    using unlock_shared_rw_read [OF wf] by blast
  then have "unlock_shared_call (rw_read_times (Suc n) s t) t = Inr (rw_read_times n s t)"
    by (simp add: unlock_shared_call_def rw_read_times_def)
  moreover have "urg_release (int (Suc n)) (rw_read_times (Suc n) s t) t =
      (case unlock_shared_call (rw_read_times (Suc n) s t) t of Inl e \<Rightarrow> Inl e
       | Inr s' \<Rightarrow> urg_release (int (Suc n) - 1) s' t)"
    by (subst urg_release.simps) simp
  ultimately show ?case using Suc by simp
qed

subsection \<open>Properties of the guards\<close>

text \<open>
  C12. The destructor of a \<open>unique_read_guard\<close> that acquired the lock \<open>n\<close>
  times releases exactly those \<open>n\<close> shared holds and restores the lock.
\<close>

theorem unique_read_guard_release:
  "rw_wf s \<Longrightarrow> urg_destroy \<lparr>ur_owns_ref = int n\<rparr> (rw_read_times n s t) t = Inr s"
  using urg_release_reads by (simp add: urg_destroy_def)

theorem unique_read_guard_release_witness:
  "urg_destroy \<lparr>ur_owns_ref = 3\<rparr> (rw_read_times 3 rw_init 0) 0 = Inr rw_init"
  using unique_read_guard_release [OF rw_wf_init, of 3 0] by simp

text \<open>
  C19. Misuse of a unique guard is a fatal error that leaves the lock alone:
  \<open>lock()\<close> or \<open>try_lock()\<close> on a \<open>unique_write_guard\<close> that owns the lock,
  \<open>unlock()\<close> on one that does not, and \<open>unlock()\<close> on a \<open>unique_read_guard\<close>
  whose reference count is not positive.
\<close>

theorem unique_guard_misuse_fatal:
  "(uw_owns g \<longrightarrow> uwg_lock g s t = Inl (Lock_error Fatal) \<and> uwg_try_lock g s t = Inl (Lock_error Fatal)) \<and>
   (\<not> uw_owns g \<longrightarrow> uwg_unlock g s t = Inl (Lock_error Fatal)) \<and>
   (ur_owns_ref r \<le> 0 \<longrightarrow> urg_unlock r s t = Inl (Lock_error Fatal))"
  by (simp add: uwg_lock_def uwg_try_lock_def uwg_unlock_def urg_unlock_def)

theorem unique_guard_misuse_fatal_witness:
  "uwg_lock \<lparr>uw_owns = True\<rparr> rw_init 0 = Inl (Lock_error Fatal) \<and>
   uwg_unlock \<lparr>uw_owns = False\<rparr> rw_init 0 = Inl (Lock_error Fatal) \<and>
   urg_unlock \<lparr>ur_owns_ref = 0\<rparr> rw_init 0 = Inl (Lock_error Fatal)"
  using unique_guard_misuse_fatal [of "\<lparr>uw_owns = True\<rparr>" rw_init 0 "\<lparr>ur_owns_ref = 0\<rparr>"]
    unique_guard_misuse_fatal [of "\<lparr>uw_owns = False\<rparr>" rw_init 0 "\<lparr>ur_owns_ref = 0\<rparr>"]
  by simp

text \<open>
  C20. Moving a \<open>unique_write_guard\<close> transfers the ownership: destroying the
  moved-from guard leaves the lock alone, and destroying the new guard performs
  the one \<open>unlock()\<close> the original owed.  A guard created on an idle lock and
  moved, with both guards destroyed, leaves the lock idle.
\<close>

theorem unique_write_guard_move:
  "uwg_move g = (g1, g2) \<Longrightarrow>
     uwg_destroy g2 s t = Inr s \<and> uwg_destroy g1 s t = uwg_destroy g s t \<and> uw_owns g1 = uw_owns g"
  by (auto simp: uwg_move_def uwg_destroy_def)

theorem unique_write_guard_move_witness:
  "uwg_create rw_init 0 = Inr (\<lparr>uw_owns = True\<rparr>, (rw_init\<lparr>write_cnt := 1, write_depth := 1, w_id := Some 0\<rparr>)) \<and>
   uwg_destroy (snd (uwg_move \<lparr>uw_owns = True\<rparr>)) (rw_init\<lparr>write_cnt := 1, write_depth := 1, w_id := Some 0\<rparr>) 0 = Inr (rw_init\<lparr>write_cnt := 1, write_depth := 1, w_id := Some 0\<rparr>) \<and>
   uwg_destroy (fst (uwg_move \<lparr>uw_owns = True\<rparr>)) (rw_init\<lparr>write_cnt := 1, write_depth := 1, w_id := Some 0\<rparr>) 0 = Inr rw_init"
proof -
  have "uwg_destroy (snd (uwg_move \<lparr>uw_owns = True\<rparr>)) (rw_init\<lparr>write_cnt := 1, write_depth := 1, w_id := Some 0\<rparr>) 0 = Inr (rw_init\<lparr>write_cnt := 1, write_depth := 1, w_id := Some 0\<rparr>) \<and>
      uwg_destroy (fst (uwg_move \<lparr>uw_owns = True\<rparr>)) (rw_init\<lparr>write_cnt := 1, write_depth := 1, w_id := Some 0\<rparr>) 0 = uwg_destroy \<lparr>uw_owns = True\<rparr> (rw_init\<lparr>write_cnt := 1, write_depth := 1, w_id := Some 0\<rparr>) 0"
    using unique_write_guard_move [of "\<lparr>uw_owns = True\<rparr>" "fst (uwg_move \<lparr>uw_owns = True\<rparr>)"
        "snd (uwg_move \<lparr>uw_owns = True\<rparr>)" "(rw_init\<lparr>write_cnt := 1, write_depth := 1, w_id := Some 0\<rparr>)" 0] by simp
  then show ?thesis
    by (simp add: uwg_create_def uwg_lock_def lock_call_def uwg_destroy_def unlock_call_def
        rw_defs Let_def fun_eq_iff)
qed

text \<open>
  C21. Scoped guards nest in both orders on an idle lock and leave it idle: a
  \<open>scoped_write_guard\<close> inside a \<open>scoped_read_guard\<close> of the same thread (an
  upgrade) and a \<open>scoped_read_guard\<close> inside a \<open>scoped_write_guard\<close>.
\<close>

theorem scoped_guards_nest:
  "scoped_read_section (\<lambda>s. scoped_write_section Inr s t) rw_init t = Inr rw_init \<and>
   scoped_write_section (\<lambda>s. scoped_read_section Inr s t) rw_init t = Inr rw_init"
  by (simp add: scoped_read_section_def scoped_write_section_def lock_call_def lock_shared_call_def
      unlock_call_def unlock_shared_call_def rw_defs Let_def)

end
