(* ===== verification/SafeQueue.thy ===== *)
theory SafeQueue
  imports Prelude "HOL-Library.Word"
begin

text \<open>
  The blocking queue \<open>safe_queue_base<T, Container>\<close> of \<open>src/safequeue.hpp\<close>.
  The backing container is an interface: a record of the four members the
  queue calls (\<open>push\<close>, \<open>front\<close>, \<open>pop\<close>, \<open>empty\<close>) and the default-constructed
  value.  The queue's state is the container and the counter \<open>size_\<close>, an
  \<open>std::atomic<size_t>\<close> kept as a \<open>64 word\<close>; its initial value \<open>n0\<close> is a
  parameter, since the default constructor leaves it uninitialised before
  C++20.  Every member function is one definition, run under the queue's
  mutex; a blocking wait that cannot return in the state it sees is \<open>None\<close>.
  Calling \<open>front()\<close> on an empty container is undefined behaviour, the value
  \<open>Front_of_empty\<close>.

  The contract a container must meet is \<open>container_laws\<close>, stated against an
  abstraction into a multiset; \<open>std::queue<T>\<close> (\<open>std_queue_container\<close>, a list
  pushed at the back and popped at the front) and the
  max-priority multiset (\<open>prio_container\<close>, the \<open>priority_queue\<close> class whose
  \<open>front()\<close> is \<open>top()\<close>) meet it.
\<close>

record ('a, 'c) container =
  c_new :: 'c
  c_push :: "'a \<Rightarrow> 'c \<Rightarrow> 'c"
  c_front :: "'c \<Rightarrow> 'a"
  c_pop :: "'c \<Rightarrow> 'c"
  c_empty :: "'c \<Rightarrow> bool"

record 'c sq_state =
  sq_queue :: 'c
  sq_size :: "64 word"

datatype sq_error = Front_of_empty

definition sq_init :: "('a, 'c) container \<Rightarrow> 64 word \<Rightarrow> 'c sq_state" where
  "sq_init C n0 = \<lparr>sq_queue = c_new C, sq_size = n0\<rparr>"

definition sq_push :: "('a, 'c) container \<Rightarrow> 'a \<Rightarrow> 'c sq_state \<Rightarrow> 'c sq_state" where
  "sq_push C x q = q\<lparr>sq_queue := c_push C x (sq_queue q), sq_size := sq_size q + 1\<rparr>"

text \<open>\<open>val = std::move(queue_.front()); queue_.pop(); --size_;\<close>\<close>

definition sq_take :: "('a, 'c) container \<Rightarrow> 'c sq_state \<Rightarrow> 'a \<times> 'c sq_state" where
  "sq_take C q = (c_front C (sq_queue q), q\<lparr>sq_queue := c_pop C (sq_queue q), sq_size := sq_size q - 1\<rparr>)"

definition sq_wait_and_pop :: "('a, 'c) container \<Rightarrow> 'c sq_state \<Rightarrow> ('a \<times> 'c sq_state) option" where
  "sq_wait_and_pop C q = (if c_empty C (sq_queue q) then None else Some (sq_take C q))"

definition sq_wait_and_pop_for ::
  "('a, 'c) container \<Rightarrow> 'c sq_state \<Rightarrow> bool \<times> 'a option \<times> 'c sq_state" where
  "sq_wait_and_pop_for C q =
     (if c_empty C (sq_queue q) then (False, None, q)
      else case sq_take C q of (v, q') \<Rightarrow> (True, Some v, q'))"

definition sq_wait_and_pop_for_ptr ::
  "('a, 'c) container \<Rightarrow> 'c sq_state \<Rightarrow> sq_error + 'a \<times> 'c sq_state" where
  "sq_wait_and_pop_for_ptr C q =
     (if c_empty C (sq_queue q) then Inl Front_of_empty else Inr (sq_take C q))"

definition sq_try_pop :: "('a, 'c) container \<Rightarrow> 'c sq_state \<Rightarrow> bool \<times> 'a option \<times> 'c sq_state" where
  "sq_try_pop C q =
     (if c_empty C (sq_queue q) then (False, None, q)
      else case sq_take C q of (v, q') \<Rightarrow> (True, Some v, q'))"

definition sq_try_pop_ptr :: "('a, 'c) container \<Rightarrow> 'c sq_state \<Rightarrow> 'a option \<times> 'c sq_state" where
  "sq_try_pop_ptr C q =
     (if c_empty C (sq_queue q) then (None, q) else case sq_take C q of (v, q') \<Rightarrow> (Some v, q'))"

definition sq_empty :: "'c sq_state \<Rightarrow> bool" where
  "sq_empty q = (sq_size q \<noteq> 0)"

definition sq_size_of :: "'c sq_state \<Rightarrow> 64 word" where
  "sq_size_of q = sq_size q"

text \<open>
  The two backing stores: \<open>std::queue<T>\<close> of \<open><queue>\<close> (included by the
  header), for \<open>safe_queue_base<T, std::queue<T>>\<close>, and the \<open>priority_queue\<close>
  class of the header, for \<open>safe_priorqueue<T>\<close>.
\<close>

definition std_queue_container :: "('a, 'a list) container" where
  "std_queue_container = \<lparr>c_new = [], c_push = (\<lambda>x xs. xs @ [x]), c_front = hd, c_pop = tl,
     c_empty = (\<lambda>xs. xs = [])\<rparr>"

definition prio_container :: "('a::linorder, 'a multiset) container" where
  "prio_container = \<lparr>c_new = {#}, c_push = add_mset, c_front = (\<lambda>m. Max (set_mset m)),
     c_pop = (\<lambda>m. m - {#Max (set_mset m)#}), c_empty = (\<lambda>m. m = {#})\<rparr>"

text \<open>The contract of a backing store, against an abstraction to the multiset it holds.\<close>

definition container_laws :: "('a, 'c) container \<Rightarrow> ('c \<Rightarrow> 'a multiset) \<Rightarrow> bool" where
  "container_laws C \<alpha> \<longleftrightarrow> \<alpha> (c_new C) = {#} \<and>
     (\<forall>x c. \<alpha> (c_push C x c) = add_mset x (\<alpha> c)) \<and>
     (\<forall>c. c_empty C c \<longleftrightarrow> \<alpha> c = {#}) \<and>
     (\<forall>c. \<alpha> c \<noteq> {#} \<longrightarrow> c_front C c \<in># \<alpha> c \<and> \<alpha> (c_pop C c) = \<alpha> c - {#c_front C c#})"

text \<open>
  A sequence of calls by threads that take the queue's mutex one after the
  other.  A call that blocks for ever (\<open>wait_and_pop\<close> on a queue nobody else
  fills) makes the run \<open>None\<close>; an undefined \<open>front()\<close> ends it with the error.
\<close>

datatype 'a q_op = Push 'a | Wait_pop | Wait_pop_for | Wait_pop_for_ptr | Try_pop | Try_pop_ptr

fun sq_exec :: "('a, 'c) container \<Rightarrow> 'a q_op \<Rightarrow> 'c sq_state \<Rightarrow> (sq_error + 'a option \<times> 'c sq_state) option" where
  "sq_exec C (Push x) q = Some (Inr (None, sq_push C x q))"
| "sq_exec C Wait_pop q = map_option (\<lambda>(v, q'). Inr (Some v, q')) (sq_wait_and_pop C q)"
| "sq_exec C Wait_pop_for q = Some (Inr (snd (sq_wait_and_pop_for C q)))"
| "sq_exec C Wait_pop_for_ptr q = Some (map_sum id (\<lambda>(v, q'). (Some v, q')) (sq_wait_and_pop_for_ptr C q))"
| "sq_exec C Try_pop q = Some (Inr (snd (sq_try_pop C q)))"
| "sq_exec C Try_pop_ptr q = Some (Inr (sq_try_pop_ptr C q))"

text \<open>The value a call hands back, as a list of at most one element.\<close>

definition out_list :: "'a option \<Rightarrow> 'a list" where
  "out_list v = (case v of None \<Rightarrow> [] | Some x \<Rightarrow> [x])"

fun sq_run :: "('a, 'c) container \<Rightarrow> 'a q_op list \<Rightarrow> 'c sq_state \<Rightarrow> (sq_error + 'a list \<times> 'c sq_state) option" where
  "sq_run C [] q = Some (Inr ([], q))"
| "sq_run C (op # ops) q =
     (case sq_exec C op q of None \<Rightarrow> None | Some (Inl e) \<Rightarrow> Some (Inl e)
      | Some (Inr (v, q')) \<Rightarrow>
          (case sq_run C ops q' of None \<Rightarrow> None | Some (Inl e) \<Rightarrow> Some (Inl e)
           | Some (Inr (vs, q'')) \<Rightarrow> Some (Inr (out_list v @ vs, q''))))"

fun pushed :: "'a q_op list \<Rightarrow> 'a list" where
  "pushed [] = []"
| "pushed (Push x # ops) = x # pushed ops"
| "pushed (_ # ops) = pushed ops"

subsection \<open>The two backing stores meet the contract\<close>

lemma out_list_simps [simp]: "out_list None = []" "out_list (Some x) = [x]"
  by (simp_all add: out_list_def)

lemma fifo_laws: "container_laws std_queue_container mset"
  by (auto simp: container_laws_def std_queue_container_def neq_Nil_conv)

lemma Max_in_mset: "m \<noteq> {#} \<Longrightarrow> Max (set_mset m) \<in># m"
  by (simp add: Max_in)

lemma prio_laws: "container_laws prio_container id"
  by (simp add: container_laws_def prio_container_def Max_in_mset)

subsection \<open>One call and a sequence of calls\<close>

lemma sq_take_laws:
  assumes "container_laws C \<alpha>" and "\<not> c_empty C (sq_queue q)" and "sq_take C q = (v, q')"
  shows "\<alpha> (sq_queue q') + {#v#} = \<alpha> (sq_queue q)"
    and "sq_size q' - of_nat (size (\<alpha> (sq_queue q'))) = sq_size q - of_nat (size (\<alpha> (sq_queue q)))"
proof -
  have ne: "\<alpha> (sq_queue q) \<noteq> {#}" and mem: "v \<in># \<alpha> (sq_queue q)"
    and pop: "\<alpha> (sq_queue q') = \<alpha> (sq_queue q) - {#v#}" and sz: "sq_size q' = sq_size q - 1"
    using assms by (auto simp: container_laws_def sq_take_def)
  show "\<alpha> (sq_queue q') + {#v#} = \<alpha> (sq_queue q)" using mem pop by simp
  have "size (\<alpha> (sq_queue q')) = size (\<alpha> (sq_queue q)) - 1" "0 < size (\<alpha> (sq_queue q))"
    using mem pop ne by (simp_all add: size_Diff_singleton nonempty_has_size)
  then show "sq_size q' - of_nat (size (\<alpha> (sq_queue q'))) = sq_size q - of_nat (size (\<alpha> (sq_queue q)))"
    using sz by (simp add: of_nat_diff)
qed

lemma sq_exec_Inr:
  assumes "sq_exec C op q = Some (Inr (v, q'))"
  shows "(\<exists>x. op = Push x \<and> v = None \<and> q' = sq_push C x q) \<or>
    (pushed [op] = [] \<and> v = None \<and> q' = q) \<or>
    (pushed [op] = [] \<and> \<not> c_empty C (sq_queue q) \<and> (\<exists>x. v = Some x \<and> sq_take C q = (x, q')))"
  using assms
proof (cases op)
  case Wait_pop
  then show ?thesis using assms by (auto simp: sq_wait_and_pop_def split: if_splits)
next
  case Wait_pop_for
  then show ?thesis using assms by (auto simp: sq_wait_and_pop_for_def split: if_splits prod.splits)
next
  case Wait_pop_for_ptr
  then show ?thesis using assms by (auto simp: sq_wait_and_pop_for_ptr_def split: if_splits prod.splits)
next
  case Try_pop
  then show ?thesis using assms by (auto simp: sq_try_pop_def split: if_splits prod.splits)
next
  case Try_pop_ptr
  then show ?thesis using assms by (auto simp: sq_try_pop_ptr_def split: if_splits prod.splits)
qed simp

lemma sq_exec_laws:
  assumes laws: "container_laws C \<alpha>" and ex: "sq_exec C op q = Some (Inr (v, q'))"
  shows "\<alpha> (sq_queue q') + mset (out_list v) = \<alpha> (sq_queue q) + mset (pushed [op]) \<and>
    sq_size q' - of_nat (size (\<alpha> (sq_queue q'))) = sq_size q - of_nat (size (\<alpha> (sq_queue q)))"
  using sq_exec_Inr [OF ex]
proof (elim disjE exE conjE)
  fix x assume "op = Push x" "v = None" "q' = sq_push C x q"
  then show ?thesis using laws by (simp add: container_laws_def sq_push_def out_list_def)
next
  fix x assume "pushed [op] = []" "\<not> c_empty C (sq_queue q)" "v = Some x" "sq_take C q = (x, q')"
  then show ?thesis using sq_take_laws [OF laws] by (simp add: out_list_def)
qed (simp add: out_list_def)

lemma pushed_Cons: "pushed (op # ops) = pushed [op] @ pushed ops"
  by (cases op) simp_all

lemma sq_run_ConsE:
  assumes "sq_run C (op # ops) q = Some (Inr (outs, q''))"
  obtains v q' vs where "sq_exec C op q = Some (Inr (v, q'))" "sq_run C ops q' = Some (Inr (vs, q''))"
    "outs = out_list v @ vs"
  using assms by (auto simp: out_list_def split: option.splits sum.splits)

lemma sq_run_laws:
  assumes "container_laws C \<alpha>" and "sq_run C ops q = Some (Inr (outs, q'))"
  shows "\<alpha> (sq_queue q') + mset outs = \<alpha> (sq_queue q) + mset (pushed ops) \<and>
    sq_size q' - of_nat (size (\<alpha> (sq_queue q'))) = sq_size q - of_nat (size (\<alpha> (sq_queue q)))"
  using assms(2)
proof (induction ops arbitrary: q outs)
  case Nil
  then show ?case by simp
next
  case (Cons op ops)
  from Cons.prems obtain v q1 vs where ex: "sq_exec C op q = Some (Inr (v, q1))"
    and run: "sq_run C ops q1 = Some (Inr (vs, q'))" and outs: "outs = out_list v @ vs"
    by (rule sq_run_ConsE)
  have "\<alpha> (sq_queue q1) + mset (out_list v) = \<alpha> (sq_queue q) + mset (pushed [op]) \<and>
    sq_size q1 - of_nat (size (\<alpha> (sq_queue q1))) = sq_size q - of_nat (size (\<alpha> (sq_queue q)))"
    using sq_exec_laws [OF assms(1) ex] .
  with Cons.IH [OF run] show ?case
    by (simp add: outs pushed_Cons [of op ops]) (metis add.assoc add.commute)
qed



lemma rev_sorted_Max:
  assumes "m \<noteq> {#}"
  shows "rev (sorted_list_of_multiset m) =
    Max (set_mset m) # rev (sorted_list_of_multiset (m - {#Max (set_mset m)#}))"
proof -
  let ?M = "Max (set_mset m)"
  have m: "m = add_mset ?M (m - {#?M#})" using assms by (simp add: Max_in_mset)
  have "\<forall>x\<in>set (sorted_list_of_multiset (m - {#?M#})). x \<le> ?M"
    by (auto dest: in_diffD)
  then have "sorted_list_of_multiset m = sorted_list_of_multiset (m - {#?M#}) @ [?M]"
    by (subst m) (simp add: sorted_insort_is_snoc del: insert_DiffM)
  then show ?thesis by simp
qed

lemma prio_pops:
  "n \<le> size (sq_queue q) \<Longrightarrow>
   sq_run prio_container (replicate n Wait_pop) q =
     Some (Inr (take n (rev (sorted_list_of_multiset (sq_queue q))),
       q\<lparr>sq_queue := sq_queue q - mset (take n (rev (sorted_list_of_multiset (sq_queue q)))),
         sq_size := sq_size q - of_nat n\<rparr>))"
proof (induction n arbitrary: q)
  case 0
  then show ?case by simp
next
  case (Suc n)
  let ?m = "sq_queue q" let ?M = "Max (set_mset ?m)"
  let ?q1 = "q\<lparr>sq_queue := ?m - {#?M#}, sq_size := sq_size q - 1\<rparr>"
  have ne: "?m \<noteq> {#}" using Suc.prems by auto
  have ex: "sq_exec prio_container Wait_pop q = Some (Inr (Some ?M, ?q1))"
    using ne by (simp add: sq_wait_and_pop_def sq_take_def prio_container_def)
  have "n \<le> size (sq_queue ?q1)"
    using Suc.prems ne by (simp add: size_Diff_singleton Max_in_mset)
  note IH = Suc.IH [OF this]
  show ?case
    using ex IH rev_sorted_Max [OF ne]
    by (simp add: diff_diff_add of_nat_Suc add_ac)
qed

subsection \<open>Properties of the queue\<close>

lemma word64_of_nat_eq_0: "n < 2 ^ 64 \<Longrightarrow> (of_nat n :: 64 word) = 0 \<longleftrightarrow> n = 0"
  by (auto simp: word_of_nat_eq_0_iff dest: dvd_imp_le)

lemma sq_run_pushes: "sq_run C (map Push xs) q = Some (Inr ([], fold (sq_push C) xs q))"
  by (induction xs arbitrary: q) (simp_all add: out_list_def)

lemma prio_pushes:
  "sq_queue (fold (sq_push prio_container) xs q) = sq_queue q + mset xs \<and>
   sq_size (fold (sq_push prio_container) xs q) = sq_size q + of_nat (length xs)"
  by (induction xs arbitrary: q) (simp_all add: sq_push_def prio_container_def add_ac)

lemma sq_run_append:
  "sq_run C ops1 q = Some (Inr (vs, q')) \<Longrightarrow>
   sq_run C (ops1 @ ops2) q =
     (case sq_run C ops2 q' of None \<Rightarrow> None | Some (Inl e) \<Rightarrow> Some (Inl e)
      | Some (Inr (ws, q'')) \<Rightarrow> Some (Inr (vs @ ws, q'')))"
proof (induction ops1 arbitrary: q vs)
  case Nil
  then show ?case by (simp split: option.splits sum.splits)
next
  case (Cons op ops)
  from Cons.prems obtain v q1 us where ex: "sq_exec C op q = Some (Inr (v, q1))"
    and run: "sq_run C ops q1 = Some (Inr (us, q'))" and vs: "vs = out_list v @ us"
    by (rule sq_run_ConsE)
  show ?case
    using Cons.IH [OF run] ex vs by (simp add: out_list_def split: option.splits sum.splits)
qed

text \<open>
  C22. Over any backing store that meets its contract, a sequence of calls on a
  fresh queue loses and duplicates nothing: what the queue holds plus what the
  pops returned is exactly what was pushed; and \<open>size_\<close> is its initial value
  plus the number of elements held, modulo \<open>2^64\<close>.
\<close>

theorem sq_run_conserves:
  assumes "container_laws C \<alpha>" and "sq_run C ops (sq_init C n0) = Some (Inr (outs, q))"
  shows "\<alpha> (sq_queue q) + mset outs = mset (pushed ops) \<and>
    sq_size q = n0 + of_nat (size (\<alpha> (sq_queue q)))"
  using sq_run_laws [OF assms] assms(1) by (simp add: sq_init_def container_laws_def algebra_simps)

theorem sq_run_conserves_witness:
  "sq_run std_queue_container [Push (1::nat), Push 2, Wait_pop] (sq_init std_queue_container 0) =
     Some (Inr ([1], \<lparr>sq_queue = [2], sq_size = 1\<rparr>)) \<and>
   mset [2::nat] + mset [1] = mset (pushed [Push (1::nat), Push 2, Wait_pop]) \<and> (1::64 word) = 0 + of_nat (size (mset [2::nat]))"
proof -
  have r: "sq_run std_queue_container [Push (1::nat), Push 2, Wait_pop] (sq_init std_queue_container 0) =
     Some (Inr ([1], \<lparr>sq_queue = [2], sq_size = 1\<rparr>))"
    by (simp add: sq_init_def sq_push_def sq_wait_and_pop_def sq_take_def std_queue_container_def out_list_def)
  show ?thesis using sq_run_conserves [OF fifo_laws r] r by simp
qed



text \<open>
  C24. The priority queue pops its largest elements first: pushing \<open>xs\<close> and then
  calling \<open>wait_and_pop\<close> \<open>n \<le> length xs\<close> times returns, without blocking, the
  \<open>n\<close> largest values of \<open>xs\<close> in non-increasing order.
\<close>

theorem prio_pop_order:
  "n \<le> length xs \<Longrightarrow>
   \<exists>q. sq_run prio_container (map Push xs @ replicate n Wait_pop) (sq_init prio_container n0) =
     Some (Inr (take n (rev (sort xs)), q))"
proof -
  assume n: "n \<le> length xs"
  let ?q = "fold (sq_push prio_container) xs (sq_init prio_container n0)"
  have q: "sq_queue ?q = mset xs"
    using prio_pushes [of xs "sq_init prio_container n0"] by (simp add: sq_init_def prio_container_def)
  have "n \<le> size (sq_queue ?q)" using n q by simp
  from prio_pops [OF this] q sq_run_append [OF sq_run_pushes [of prio_container xs]]
  show ?thesis by simp
qed

theorem prio_pop_order_witness:
  "\<exists>q. sq_run prio_container (map Push [3, 1, 4, 1, 5] @ replicate 5 Wait_pop) (sq_init prio_container 0) =
     Some (Inr ([5, 4, 3, 1, 1::int], q))"
  using prio_pop_order [of 5 "[3, 1, 4, 1, 5::int]" 0] by simp

text \<open>
  C25. \<open>empty()\<close> answers the opposite question: with \<open>size_\<close> starting at zero
  and fewer than \<open>2^64\<close> elements, it returns true exactly when the queue holds
  an element.
\<close>

theorem sq_empty_inverted:
  assumes "container_laws C \<alpha>" and "sq_run C ops (sq_init C 0) = Some (Inr (outs, q))"
    and "size (\<alpha> (sq_queue q)) < 2 ^ 64"
  shows "sq_empty q \<longleftrightarrow> \<alpha> (sq_queue q) \<noteq> {#}"
proof -
  have "sq_size q = of_nat (size (\<alpha> (sq_queue q)))"
    using sq_run_laws [OF assms(1,2)] assms(1) by (simp add: sq_init_def container_laws_def)
  then show ?thesis using word64_of_nat_eq_0 [OF assms(3)] by (simp add: sq_empty_def)
qed

theorem sq_empty_inverted_witness:
  "sq_empty \<lparr>sq_queue = [2::nat], sq_size = 1\<rparr> \<and> \<not> sq_empty \<lparr>sq_queue = [] :: nat list, sq_size = 0\<rparr>"
proof -
  have r1: "sq_run std_queue_container [Push (1::nat), Push 2, Wait_pop] (sq_init std_queue_container 0) =
     Some (Inr ([1], \<lparr>sq_queue = [2], sq_size = 1\<rparr>))"
    by (simp add: sq_init_def sq_push_def sq_wait_and_pop_def sq_take_def std_queue_container_def out_list_def)
  have r2: "sq_run std_queue_container [] (sq_init std_queue_container 0) =
     Some (Inr ([], \<lparr>sq_queue = [] :: nat list, sq_size = 0\<rparr>))"
    by (simp add: sq_init_def std_queue_container_def)
  show ?thesis
    using sq_empty_inverted [OF fifo_laws r1] sq_empty_inverted [OF fifo_laws r2] by simp
qed

text \<open>
  C26. On an empty queue \<open>wait_and_pop\<close> blocks, and after one \<open>push(x)\<close> it
  returns \<open>x\<close> and leaves the queue empty with \<open>size_\<close> restored.
\<close>

theorem push_wait_and_pop_roundtrip:
  assumes "container_laws C \<alpha>" and "\<alpha> (sq_queue q) = {#}"
  shows "sq_run C [Wait_pop] q = None \<and>
    (\<exists>q'. sq_run C [Push x, Wait_pop] q = Some (Inr ([x], q')) \<and>
      \<alpha> (sq_queue q') = {#} \<and> sq_size q' = sq_size q)"
proof -
  let ?c = "c_push C x (sq_queue q)"
  have e: "c_empty C (sq_queue q)" and ne: "\<not> c_empty C ?c" and ax: "\<alpha> ?c = {#x#}"
    using assms by (simp_all add: container_laws_def)
  have fr: "c_front C ?c = x" and pop: "\<alpha> (c_pop C ?c) = {#}"
    using assms(1) ax by (auto simp: container_laws_def dest!: spec [of _ ?c])
  show ?thesis
    using e ne fr pop by (simp add: sq_wait_and_pop_def sq_push_def sq_take_def out_list_def)
qed

theorem push_wait_and_pop_roundtrip_witness:
  "sq_run prio_container [Wait_pop :: int q_op] (sq_init prio_container 0) = None \<and>
   (\<exists>q'. sq_run prio_container [Push (7::int), Wait_pop] (sq_init prio_container 0) = Some (Inr ([7], q')) \<and>
      sq_queue q' = {#} \<and> sq_size q' = 0)"
proof -
  have h: "id (sq_queue (sq_init prio_container 0 :: int multiset sq_state)) = {#}"
    by (simp add: sq_init_def prio_container_def)
  show ?thesis using push_wait_and_pop_roundtrip [OF prio_laws h, of 7]
    by (simp only: id_apply sq_init_def sq_state.select_convs)
qed

text \<open>
  C27. On an empty queue the timed \<open>wait_and_pop\<close> returning a \<open>shared_ptr\<close>
  reads \<open>front()\<close> of the empty container, while the timed pop with an output
  parameter and both \<open>try_pop\<close> variants return no value and change nothing.
\<close>

theorem timed_pop_empty:
  assumes "container_laws C \<alpha>" and "\<alpha> (sq_queue q) = {#}"
  shows "sq_run C (Wait_pop_for_ptr # ops) q = Some (Inl Front_of_empty) \<and>
    sq_run C (Wait_pop_for # ops) q = sq_run C ops q \<and>
    sq_run C (Try_pop # ops) q = sq_run C ops q \<and> sq_run C (Try_pop_ptr # ops) q = sq_run C ops q"
proof -
  have "c_empty C (sq_queue q)" using assms by (simp add: container_laws_def)
  then show ?thesis
    by (simp add: sq_wait_and_pop_for_ptr_def sq_wait_and_pop_for_def sq_try_pop_def
        sq_try_pop_ptr_def out_list_def split: option.splits sum.splits prod.splits)
qed

theorem timed_pop_empty_witness:
  "sq_run std_queue_container [Wait_pop_for_ptr, Push (1::nat)] (sq_init std_queue_container 0) = Some (Inl Front_of_empty) \<and>
   sq_run std_queue_container [Wait_pop_for, Push (1::nat)] (sq_init std_queue_container 0) =
     sq_run std_queue_container [Push (1::nat)] (sq_init std_queue_container 0) \<and>
   sq_run std_queue_container [Try_pop, Push (1::nat)] (sq_init std_queue_container 0) =
     sq_run std_queue_container [Push (1::nat)] (sq_init std_queue_container 0) \<and>
   sq_run std_queue_container [Try_pop_ptr, Push (1::nat)] (sq_init std_queue_container 0) =
     sq_run std_queue_container [Push (1::nat)] (sq_init std_queue_container 0)"
proof -
  have h: "mset (sq_queue (sq_init std_queue_container 0 :: nat list sq_state)) = {#}"
    by (simp add: sq_init_def std_queue_container_def)
  show ?thesis by (rule timed_pop_empty [OF fifo_laws h])
qed

end
