(* ===== verification/Spin.thy ===== *)
theory Spin
  imports Prelude
begin

text \<open>
  \<open>spin_lock\<close> and \<open>spin_mutex\<close> of \<open>src/spinlock.h\<close>: a busy-wait lock on an
  \<open>std::atomic_flag\<close>, and a lock that spins a bounded number of times per round
  and waits on a condition variable between rounds.  The C++ \<open>int\<close> counters
  are \<open>int\<close>: they only count down from a positive value to zero, and
  \<open>millis\<close> stops growing at 320, so nothing here overflows.  The first part
  models one call against an oracle for the other threads, the second the
  interleaving of whole threads as a step relation.
\<close>

text \<open>
  One call seen from its thread.  The other threads are an oracle:
  \<open>held k\<close> says whether the flag is set by another thread when the call's
  \<open>k\<close>-th \<open>test_and_set\<close> runs, so that probe returns \<open>held k\<close> and, when it
  returns false, the call has set the flag.  The counting loop
  \<open>for (; cnt > 0 && flg_.test_and_set(); --cnt);\<close>, shared by the three
  \<open>try_lock\<close> loops, returns its final counter.
\<close>

function spin_loop :: "int \<Rightarrow> (nat \<Rightarrow> bool) \<Rightarrow> nat \<Rightarrow> int" where
  "spin_loop cnt held k = (if 0 < cnt \<and> held k then spin_loop (cnt - 1) held (Suc k) else cnt)"
  by pat_completeness auto
termination by (relation "measure (\<lambda>(cnt, held, k). nat cnt)") auto

text \<open>\<open>spin_lock::lock\<close>: probes until one finds the flag clear; returns that probe's index.\<close>

partial_function (option) spin_lock_lock :: "(nat \<Rightarrow> bool) \<Rightarrow> nat \<Rightarrow> nat option" where
  "spin_lock_lock held k = (if held k then spin_lock_lock held (Suc k) else Some k)"

definition spin_lock_try_lock :: "(nat \<Rightarrow> bool) \<Rightarrow> bool" where
  "spin_lock_try_lock held = (0 < spin_loop 100 held 0)"

record spin_mutex =
  sm_try_cnt :: int

definition sm_create_default :: spin_mutex where
  "sm_create_default = \<lparr>sm_try_cnt = 200\<rparr>"

definition sm_create :: "int \<Rightarrow> spin_mutex" where
  "sm_create n = \<lparr>sm_try_cnt = n\<rparr>"

definition next_millis :: "int \<Rightarrow> int" where
  "next_millis millis = (if millis < 100 then push_bit 2 millis else millis)"

text \<open>
  \<open>spin_mutex::lock\<close>: round \<open>r\<close> runs the counting loop against the probes
  \<open>held r\<close>; a failed round waits \<open>millis\<close> on the condition variable and starts
  the next one.  The result is the round that acquired the flag and the list of
  waits performed before it.
\<close>

partial_function (option) sm_lock_loop ::
  "int \<Rightarrow> (nat \<Rightarrow> nat \<Rightarrow> bool) \<Rightarrow> nat \<Rightarrow> int \<Rightarrow> (nat \<times> int list) option" where
  "sm_lock_loop cnt held r millis =
     (if 0 < spin_loop cnt (held r) 0 then Some (r, [])
      else Option.bind (sm_lock_loop cnt held (Suc r) (next_millis millis))
             (\<lambda>(r', ws). Some (r', millis # ws)))"

definition sm_lock :: "spin_mutex \<Rightarrow> (nat \<Rightarrow> nat \<Rightarrow> bool) \<Rightarrow> (nat \<times> int list) option" where
  "sm_lock m held = sm_lock_loop (sm_try_cnt m) held 0 5"

definition sm_try_lock :: "spin_mutex \<Rightarrow> (nat \<Rightarrow> bool) \<Rightarrow> bool" where
  "sm_try_lock m held = (0 < spin_loop (sm_try_cnt m) held 0)"

text \<open>
  Threads sharing one object.  A thread's program counter records where it is
  in a call; each \<open>test_and_set\<close> and each \<open>clear\<close> is one atomic step.  The
  object is a \<open>spin_lock\<close> (\<open>lock()\<close> spins without bound, \<open>try_lock()\<close> has
  100 probes) or a \<open>spin_mutex\<close> with \<open>try_cnt_\<close> probes per round (its
  \<open>lock()\<close> waits \<open>millis\<close> between rounds).  \<open>unlock()\<close> is called by the
  thread that holds the flag, as the classes' contract requires.
\<close>

datatype spin_kind = Kind_spin_lock | Kind_spin_mutex int

datatype spin_pc = S_idle | S_lock | S_try int | S_mspin int int | S_mwait int | S_held

record spin_sys =
  sflag :: bool
  spcs :: "tid \<Rightarrow> spin_pc"

fun kind_try_cnt :: "spin_kind \<Rightarrow> int" where
  "kind_try_cnt Kind_spin_lock = 100"
| "kind_try_cnt (Kind_spin_mutex n) = n"

definition spin_init :: spin_sys where
  "spin_init = \<lparr>sflag = False, spcs = (\<lambda>_. S_idle)\<rparr>"

inductive spin_step :: "spin_kind \<Rightarrow> tid \<Rightarrow> spin_sys \<Rightarrow> spin_sys \<Rightarrow> bool" for K where
  call_lock: "K = Kind_spin_lock \<Longrightarrow> spcs s t = S_idle \<Longrightarrow>
    spin_step K t s (s\<lparr>spcs := (spcs s)(t := S_lock)\<rparr>)"
| lock_tas: "spcs s t = S_lock \<Longrightarrow>
    spin_step K t s (s\<lparr>sflag := True, spcs := (spcs s)(t := if sflag s then S_lock else S_held)\<rparr>)"
| call_try: "spcs s t = S_idle \<Longrightarrow>
    spin_step K t s (s\<lparr>spcs := (spcs s)(t := S_try (kind_try_cnt K))\<rparr>)"
| try_tas: "spcs s t = S_try c \<Longrightarrow> 0 < c \<Longrightarrow>
    spin_step K t s (s\<lparr>sflag := True, spcs := (spcs s)(t := if sflag s then S_try (c - 1) else S_held)\<rparr>)"
| try_fail: "spcs s t = S_try c \<Longrightarrow> \<not> 0 < c \<Longrightarrow>
    spin_step K t s (s\<lparr>spcs := (spcs s)(t := S_idle)\<rparr>)"
| call_mlock: "K = Kind_spin_mutex n \<Longrightarrow> spcs s t = S_idle \<Longrightarrow>
    spin_step K t s (s\<lparr>spcs := (spcs s)(t := S_mspin n 5)\<rparr>)"
| mspin_tas: "spcs s t = S_mspin c millis \<Longrightarrow> 0 < c \<Longrightarrow>
    spin_step K t s (s\<lparr>sflag := True,
      spcs := (spcs s)(t := if sflag s then S_mspin (c - 1) millis else S_held)\<rparr>)"
| mspin_out: "spcs s t = S_mspin c millis \<Longrightarrow> \<not> 0 < c \<Longrightarrow>
    spin_step K t s (s\<lparr>spcs := (spcs s)(t := S_mwait millis)\<rparr>)"
| mwait: "spcs s t = S_mwait millis \<Longrightarrow>
    spin_step K t s (s\<lparr>spcs := (spcs s)(t := S_mspin (kind_try_cnt K) (next_millis millis))\<rparr>)"
| unlock: "spcs s t = S_held \<Longrightarrow>
    spin_step K t s (s\<lparr>sflag := False, spcs := (spcs s)(t := S_idle)\<rparr>)"

inductive spin_reach :: "spin_kind \<Rightarrow> spin_sys \<Rightarrow> bool" for K where
  init: "spin_reach K spin_init"
| step: "spin_reach K s \<Longrightarrow> spin_step K t s s' \<Longrightarrow> spin_reach K s'"

definition spin_inv :: "spin_sys \<Rightarrow> bool" where
  "spin_inv s \<longleftrightarrow> (\<forall>t u. spcs s t = S_held \<longrightarrow> spcs s u = S_held \<longrightarrow> t = u) \<and>
     (\<forall>t. spcs s t = S_held \<longrightarrow> sflag s)"

text \<open>
  A reference for the counting loop: the first probe that finds the flag clear,
  searched among the first \<open>cnt\<close> probes.
\<close>

definition spin_loop_ref :: "int \<Rightarrow> (nat \<Rightarrow> bool) \<Rightarrow> nat \<Rightarrow> int" where
  "spin_loop_ref n held k =
     (case find (\<lambda>j. \<not> held (k + j)) [0..<nat n] of None \<Rightarrow> min n 0 | Some j \<Rightarrow> n - int j)"

text \<open>The ranges a thread's counters stay in.\<close>

definition pc_in_range :: "spin_kind \<Rightarrow> spin_pc \<Rightarrow> bool" where
  "pc_in_range K p = (case p of
       S_try c \<Rightarrow> min 0 (kind_try_cnt K) \<le> c \<and> c \<le> kind_try_cnt K
     | S_mspin c m \<Rightarrow> min 0 (kind_try_cnt K) \<le> c \<and> c \<le> kind_try_cnt K \<and> m \<in> {5, 20, 80, 320}
     | S_mwait m \<Rightarrow> m \<in> {5, 20, 80, 320}
     | _ \<Rightarrow> True)"

declare spin_loop.simps [simp del]

subsection \<open>The counting loop and the unbounded loops\<close>

lemma spin_loop_step: "0 < cnt \<Longrightarrow> held k \<Longrightarrow> spin_loop cnt held k = spin_loop (cnt - 1) held (Suc k)"
  by (subst spin_loop.simps) simp

lemma spin_loop_stop: "\<not> (0 < cnt \<and> held k) \<Longrightarrow> spin_loop cnt held k = cnt"
  by (subst spin_loop.simps) auto

lemma sm_lock_loop_ok:
  "0 < spin_loop cnt (held r) 0 \<Longrightarrow> sm_lock_loop cnt held r millis = Some (r, [])"
  by (subst sm_lock_loop.simps) simp

lemma sm_lock_loop_next:
  "\<not> 0 < spin_loop cnt (held r) 0 \<Longrightarrow> sm_lock_loop cnt held r millis =
     Option.bind (sm_lock_loop cnt held (Suc r) (next_millis millis)) (\<lambda>(r', ws). Some (r', millis # ws))"
  by (subst sm_lock_loop.simps) simp

lemma ex_less_shift: "\<not> P 0 \<Longrightarrow> (\<exists>j < Suc m. P j) \<longleftrightarrow> (\<exists>j < m. P (Suc j))"
  by (auto simp: less_Suc_eq_0_disj)

lemma spin_loop_pos:
  "0 < spin_loop n held k \<longleftrightarrow> (\<exists>j < nat n. \<not> held (k + j))"
proof (induction n held k rule: spin_loop.induct)
  case (1 cnt held k)
  show ?case
  proof (cases "0 < cnt \<and> held k")
    case True
    then have n: "nat cnt = Suc (nat (cnt - 1))" by (simp add: Suc_nat_eq_nat_zadd1)
    have "0 < spin_loop cnt held k \<longleftrightarrow> (\<exists>j < nat (cnt - 1). \<not> held (Suc k + j))"
      using 1 True by (subst spin_loop.simps) simp
    also have "\<dots> \<longleftrightarrow> (\<exists>j < nat cnt. \<not> held (k + j))"
      unfolding n using True ex_less_shift [of "\<lambda>j. \<not> held (k + j)"] by simp
    finally show ?thesis .
  next
    case False
    then have "spin_loop cnt held k = cnt" by (subst spin_loop.simps) auto
    then show ?thesis using False by (cases "0 < cnt") (auto intro!: exI [of _ 0])
  qed
qed

lemma spin_loop_local:
  "(\<forall>j < nat n. held (k + j) = held' (k + j)) \<Longrightarrow> spin_loop n held k = spin_loop n held' k"
proof (induction n held k rule: spin_loop.induct)
  case (1 cnt held k)
  show ?case
  proof (cases "0 < cnt")
    case True
    have "\<forall>j < nat (cnt - 1). held (Suc k + j) = held' (Suc k + j)"
    proof (intro allI impI)
      fix j assume "j < nat (cnt - 1)"
      then have "Suc j < nat cnt" using True by simp
      then show "held (Suc k + j) = held' (Suc k + j)"
        using "1.prems" by (drule_tac x = "Suc j" in spec) simp
    qed
    moreover have "held k = held' k" using "1.prems" True by (auto dest: spec [of _ 0])
    ultimately show ?thesis using 1 True by (subst (1 2) spin_loop.simps) simp
  qed (simp add: spin_loop.simps)
qed

lemma spin_lock_lock_Some:
  assumes ret: "spin_lock_lock held k = Some j"
  shows "k \<le> j \<and> \<not> held j \<and> (\<forall>i. k \<le> i \<and> i < j \<longrightarrow> held i)"
proof (rule spin_lock_lock.raw_induct
    [where P = "\<lambda>held k j. k \<le> j \<and> \<not> held j \<and> (\<forall>i. k \<le> i \<and> i < j \<longrightarrow> held i)", OF _ ret])
  fix f held k j
  assume IH: "\<And>held k j. f held k = Some j \<Longrightarrow> k \<le> j \<and> \<not> held j \<and> (\<forall>i. k \<le> i \<and> i < j \<longrightarrow> held i)"
    and eq: "(if held k then f held (Suc k) else Some k) = Some j"
  show "k \<le> j \<and> \<not> held j \<and> (\<forall>i. k \<le> i \<and> i < j \<longrightarrow> held i)"
  proof (cases "held k")
    case True
    with eq have "f held (Suc k) = Some j" by simp
    then have h: "Suc k \<le> j" "\<not> held j" "\<forall>i. Suc k \<le> i \<and> i < j \<longrightarrow> held i"
      using IH by blast+
    show ?thesis
    proof (intro conjI allI impI)
      show "k \<le> j" using h(1) by simp
      show "\<not> held j" by (rule h(2))
      fix i assume "k \<le> i \<and> i < j"
      then show "held i" using h(3) True by (cases "i = k") auto
    qed
  next
    case False
    with eq show ?thesis by auto
  qed
qed

lemma spin_lock_lock_free:
  "k \<le> j \<Longrightarrow> \<not> held j \<Longrightarrow> spin_lock_lock held k \<noteq> None"
proof (induction "j - k" arbitrary: k)
  case 0
  then show ?case by (subst spin_lock_lock.simps) simp
next
  case (Suc d)
  then show ?case by (subst spin_lock_lock.simps) (auto simp: Suc_diff_Suc)
qed


lemma sm_lock_loop_Some:
  assumes ret: "sm_lock_loop cnt held r millis = Some res"
  shows "r \<le> fst res \<and> 0 < spin_loop cnt (held (fst res)) 0 \<and>
    snd res = map (\<lambda>i. (next_millis ^^ i) millis) [0..<fst res - r]"
proof (rule sm_lock_loop.raw_induct [where P = "\<lambda>cnt held r millis res. r \<le> fst res \<and>
      0 < spin_loop cnt (held (fst res)) 0 \<and> snd res = map (\<lambda>i. (next_millis ^^ i) millis) [0..<fst res - r]",
      OF _ ret])
  fix f cnt held r millis res
  assume IH: "\<And>cnt held r millis res. f cnt held r millis = Some res \<Longrightarrow> r \<le> fst res \<and>
      0 < spin_loop cnt (held (fst res)) 0 \<and> snd res = map (\<lambda>i. (next_millis ^^ i) millis) [0..<fst res - r]"
    and eq: "(if 0 < spin_loop cnt (held r) 0 then Some (r, [])
      else Option.bind (f cnt held (Suc r) (next_millis millis)) (\<lambda>(r', ws). Some (r', millis # ws))) = Some res"
  show "r \<le> fst res \<and> 0 < spin_loop cnt (held (fst res)) 0 \<and>
      snd res = map (\<lambda>i. (next_millis ^^ i) millis) [0..<fst res - r]"
  proof (cases "0 < spin_loop cnt (held r) 0")
    case True
    with eq show ?thesis by auto
  next
    case False
    with eq obtain r1 ws1 where f: "f cnt held (Suc r) (next_millis millis) = Some (r1, ws1)"
      and res: "res = (r1, millis # ws1)"
      by (auto split: Option.bind_splits)
    from IH [OF f] have a: "Suc r \<le> r1" "0 < spin_loop cnt (held r1) 0"
      "ws1 = map (\<lambda>i. (next_millis ^^ i) (next_millis millis)) [0..<r1 - Suc r]" by auto
    have "r1 - r = Suc (r1 - Suc r)" using a(1) by arith
    then have b: "map (\<lambda>i. (next_millis ^^ i) millis) [0..<r1 - r] =
        millis # map (\<lambda>i. (next_millis ^^ i) (next_millis millis)) [0..<r1 - Suc r]"
      by (simp only: map_upt_Suc) (simp add: funpow_Suc_right del: funpow.simps)
    show ?thesis using a b res by auto
  qed
qed

lemma sm_lock_loop_progress:
  "0 < spin_loop cnt (held r) 0 \<Longrightarrow> r0 \<le> r \<Longrightarrow>
   \<exists>r' ws. sm_lock_loop cnt held r0 millis = Some (r', ws) \<and> r' \<le> r"
proof (induction "r - r0" arbitrary: r0 millis)
  case 0
  then have "r0 = r" by simp
  with 0 show ?case by (subst sm_lock_loop.simps) simp
next
  case (Suc d)
  show ?case
  proof (cases "0 < spin_loop cnt (held r0) 0")
    case True
    then show ?thesis using Suc.prems by (subst sm_lock_loop.simps) simp
  next
    case False
    have "r0 \<noteq> r" using False Suc.prems by auto
    then have "d = r - Suc r0" "Suc r0 \<le> r" using Suc.hyps(2) Suc.prems by arith+
    from Suc.hyps(1) [OF this(1) Suc.prems(1) this(2)]
    obtain r' ws where "sm_lock_loop cnt held (Suc r0) (next_millis millis) = Some (r', ws)" "r' \<le> r"
      by blast
    with False show ?thesis by (subst sm_lock_loop.simps) auto
  qed
qed

lemma next_millis_320: "(next_millis ^^ i) 320 = 320"
  by (induction i) (simp_all add: next_millis_def)

lemma backoff_from_5: "(next_millis ^^ i) 5 = [5, 20, 80, 320] ! min i 3"
proof -
  consider "i = 0" | "i = 1" | "i = 2" | "3 \<le> i" by linarith
  then show ?thesis
  proof cases
    case 4
    then obtain j where "i = j + 3" by (metis add.commute le_iff_add)
    have three: "(next_millis ^^ 3) 5 = 320"
      by (simp add: next_millis_def numeral_eq_Suc push_bit_eq_mult)
    have "(next_millis ^^ (j + 3)) 5 = (next_millis ^^ j) ((next_millis ^^ 3) 5)"
      by (simp only: funpow_add comp_apply)
    then show ?thesis using \<open>i = j + 3\<close> three by (simp add: next_millis_320)
  qed (simp_all add: next_millis_def numeral_eq_Suc push_bit_eq_mult)
qed


subsection \<open>The invariant of the threads\<close>

lemma spin_step_inv: "spin_step K t s s' \<Longrightarrow> spin_inv s \<Longrightarrow> spin_inv s'"
  by (induction rule: spin_step.induct) (auto simp: spin_inv_def)

lemma spin_reach_inv: "spin_reach K s \<Longrightarrow> spin_inv s"
proof (induction rule: spin_reach.induct)
  case init
  then show ?case by (simp add: spin_inv_def spin_init_def)
next
  case (step s t s')
  then show ?case by (blast intro: spin_step_inv)
qed


subsection \<open>Properties of the spin primitives\<close>

lemma spin_lock_lock_first_unique:
  assumes "k \<le> (j::nat)" "\<not> held j" "\<forall>i. k \<le> i \<and> i < j \<longrightarrow> held i"
    and "k \<le> j'" "\<not> held j'" "\<forall>i. k \<le> i \<and> i < j' \<longrightarrow> held i"
  shows "j = j'"
proof (cases j j' rule: linorder_cases)
  case less
  then show ?thesis using assms(6) [rule_format, of j] assms(1,2) by simp
next
  case greater
  then show ?thesis using assms(3) [rule_format, of j'] assms(4,5) by simp
qed

text \<open>
  C28. Mutual exclusion: in every reachable state of threads calling \<open>lock\<close>,
  \<open>try_lock\<close> and \<open>unlock\<close> on one \<open>spin_lock\<close> or \<open>spin_mutex\<close>, at most one
  thread holds the flag.
\<close>

theorem spin_mutual_exclusion:
  "spin_reach K s \<Longrightarrow> spcs s t = S_held \<Longrightarrow> spcs s u = S_held \<Longrightarrow> t = u"
  using spin_reach_inv by (auto simp: spin_inv_def)

theorem spin_mutual_exclusion_witness:
  "spin_reach Kind_spin_lock \<lparr>sflag = True, spcs = (\<lambda>_. S_idle)(0 := S_held)\<rparr> \<and> (0::tid) = 0"
proof -
  let ?s1 = "spin_init\<lparr>spcs := (spcs spin_init)(0 := S_try 100)\<rparr>"
  have r1: "spin_reach Kind_spin_lock ?s1"
    using spin_reach.step [OF spin_reach.init spin_step.call_try [where K = Kind_spin_lock, of spin_init 0]]
    by (simp add: spin_init_def)
  have "spin_step Kind_spin_lock 0 ?s1 (?s1\<lparr>sflag := True, spcs := (spcs ?s1)(0 := S_held)\<rparr>)"
    using spin_step.try_tas [of ?s1 0 100 Kind_spin_lock] by (simp add: spin_init_def)
  from spin_reach.step [OF r1 this]
  have r: "spin_reach Kind_spin_lock \<lparr>sflag = True, spcs = (\<lambda>_. S_idle)(0 := S_held)\<rparr>"
    by (simp add: spin_init_def)
  show ?thesis using spin_mutual_exclusion [OF r, of 0 0] r by simp
qed

text \<open>
  C29. \<open>spin_lock::try_lock\<close> is bounded: it reads only the first 100
  \<open>test_and_set\<close> results, and succeeds exactly when one of them finds the
  flag clear.
\<close>

theorem spin_try_lock_bounded:
  "(\<forall>k<100. held k = held' k) \<Longrightarrow>
   spin_lock_try_lock held = spin_lock_try_lock held' \<and>
   (spin_lock_try_lock held \<longleftrightarrow> (\<exists>k<100. \<not> held k))"
  using spin_loop_local [of 100 held 0 held'] spin_loop_pos [of 100 held 0]
  by (simp add: spin_lock_try_lock_def)

theorem spin_try_lock_bounded_witness:
  "spin_lock_try_lock (\<lambda>k. k < 99) = spin_lock_try_lock (\<lambda>k. k < 99 \<or> 200 \<le> k) \<and>
   spin_lock_try_lock (\<lambda>k. k < 99) \<and> \<not> spin_lock_try_lock (\<lambda>k. k < 100)"
proof -
  have a: "spin_lock_try_lock (\<lambda>k. k < 99) = spin_lock_try_lock (\<lambda>k. k < 99 \<or> 200 \<le> k) \<and>
      (spin_lock_try_lock (\<lambda>k. k < 99) \<longleftrightarrow> (\<exists>k<100. \<not> k < (99::nat)))"
    by (rule spin_try_lock_bounded) simp
  have b: "spin_lock_try_lock (\<lambda>k. k < 100) = spin_lock_try_lock (\<lambda>k. k < 100) \<and>
      (spin_lock_try_lock (\<lambda>k. k < 100) \<longleftrightarrow> (\<exists>k<100. \<not> k < (100::nat)))"
    by (rule spin_try_lock_bounded) simp
  have "\<exists>k<100. \<not> k < (99::nat)" by (rule exI [of _ 99]) simp
  with a b show ?thesis by auto
qed

text \<open>
  C30. \<open>spin_lock::lock\<close> returns exactly when some probe finds the flag clear,
  and then at the first such probe; while the flag stays set it never returns.
\<close>

theorem spin_lock_lock_returns:
  "(spin_lock_lock held k = Some j \<longleftrightarrow> k \<le> j \<and> \<not> held j \<and> (\<forall>i. k \<le> i \<and> i < j \<longrightarrow> held i)) \<and>
   (spin_lock_lock held k = None \<longleftrightarrow> (\<forall>i\<ge>k. held i))"
proof (rule conjI; rule iffI)
  assume "spin_lock_lock held k = Some j"
  then show "k \<le> j \<and> \<not> held j \<and> (\<forall>i. k \<le> i \<and> i < j \<longrightarrow> held i)" by (rule spin_lock_lock_Some)
next
  assume j: "k \<le> j \<and> \<not> held j \<and> (\<forall>i. k \<le> i \<and> i < j \<longrightarrow> held i)"
  then obtain j' where j': "spin_lock_lock held k = Some j'"
    using spin_lock_lock_free [of k j held] by auto
  from spin_lock_lock_Some [OF j'] j have "j = j'"
    using spin_lock_lock_first_unique [of k j held j'] by blast
  with j' show "spin_lock_lock held k = Some j" by simp
next
  assume "spin_lock_lock held k = None"
  then show "\<forall>i\<ge>k. held i" using spin_lock_lock_free [of k _ held] by blast
next
  assume all: "\<forall>i\<ge>k. held i"
  show "spin_lock_lock held k = None"
  proof (cases "spin_lock_lock held k")
    case (Some j)
    with spin_lock_lock_Some [OF this] all show ?thesis by auto
  qed
qed

theorem spin_lock_lock_returns_witness:
  "spin_lock_lock (\<lambda>i. i < 3) 0 = Some 3 \<and> spin_lock_lock (\<lambda>i. True) 0 = None"
  using spin_lock_lock_returns [of "\<lambda>i. i < 3" 0 3] spin_lock_lock_returns [of "\<lambda>i. True" 0 0]
  by auto


text \<open>
  C31. The waits of \<open>spin_mutex::lock\<close> between failed rounds are 5, 20 and 80
  milliseconds and then 320 for ever: the wait grows fourfold (\<open>millis << 2\<close>)
  while below 100 and is capped at 320; the round that returns succeeded.
\<close>

theorem sm_lock_backoff:
  "sm_lock m held = Some (r, ws) \<Longrightarrow>
   ws = take r [5, 20, 80] @ replicate (r - 3) 320 \<and> 0 < spin_loop (sm_try_cnt m) (held r) 0"
proof -
  assume "sm_lock m held = Some (r, ws)"
  then have r: "0 < spin_loop (sm_try_cnt m) (held r) 0"
    and ws: "ws = map (\<lambda>i. (next_millis ^^ i) 5) [0..<r]"
    using sm_lock_loop_Some [of "sm_try_cnt m" held 0 5 "(r, ws)"] by (simp_all add: sm_lock_def)
  have "map (\<lambda>i. (next_millis ^^ i) 5) [0..<r] = take r [5, 20, 80] @ replicate (r - 3) 320"
  proof (rule nth_equalityI)
    fix i assume "i < length (map (\<lambda>i. (next_millis ^^ i) 5) [0..<r])"
    then have "i < r" by simp
    then show "map (\<lambda>i. (next_millis ^^ i) 5) [0..<r] ! i = (take r [5, 20, 80] @ replicate (r - 3) 320) ! i"
      by (cases "i < 3") (auto simp: backoff_from_5 nth_append min_def less_Suc_eq numeral_eq_Suc)
  qed simp
  with r ws show ?thesis by simp
qed

theorem sm_lock_backoff_witness:
  "sm_lock (sm_create 2) (\<lambda>r k. r < 5) = Some (5, [5, 20, 80, 320, 320])"
proof -
  have "sm_lock (sm_create 2) (\<lambda>r k. r < 5) =
      Some (5, [5, 20, 80, 320, 320])"
    by (simp add: sm_lock_def sm_create_def sm_lock_loop_ok sm_lock_loop_next spin_loop_step spin_loop_stop next_millis_def
        push_bit_eq_mult)
  then show ?thesis
    using sm_lock_backoff [of "sm_create 2" "\<lambda>r k. r < 5" 5 "[5, 20, 80, 320, 320]"] by simp
qed

text \<open>
  C32. \<open>spin_mutex::lock\<close> terminates exactly when some round \<open>r\<close> has,
  among its first \<open>try_cnt_\<close> probes, one that finds the flag clear; it
  then returns in the first such round, no later than any round \<open>r\<close> with a
  free probe.
\<close>

theorem sm_lock_terminates:
  "(sm_lock m held \<noteq> None \<longleftrightarrow> (\<exists>r j. j < nat (sm_try_cnt m) \<and> \<not> held r j)) \<and>
   (\<forall>r j. j < nat (sm_try_cnt m) \<and> \<not> held r j \<longrightarrow>
      (\<exists>r' ws. sm_lock m held = Some (r', ws) \<and> r' \<le> r))"
proof -
  have prog: "\<exists>r' ws. sm_lock m held = Some (r', ws) \<and> r' \<le> r"
    if "j < nat (sm_try_cnt m)" "\<not> held r j" for r j
  proof -
    have "0 < spin_loop (sm_try_cnt m) (held r) 0" using that by (auto simp: spin_loop_pos)
    from sm_lock_loop_progress [where held = held and r = r and r0 = 0 and millis = 5, OF this]
    show ?thesis by (simp add: sm_lock_def)
  qed
  have ret: "\<exists>r j. j < nat (sm_try_cnt m) \<and> \<not> held r j" if "sm_lock m held = Some res" for res
  proof -
    have "0 < spin_loop (sm_try_cnt m) (held (fst res)) 0"
      using sm_lock_loop_Some that by (simp add: sm_lock_def)
    then show ?thesis by (auto simp: spin_loop_pos)
  qed
  show ?thesis using prog ret by blast
qed

theorem sm_lock_terminates_witness:
  "sm_lock sm_create_default (\<lambda>r k. r < 7 \<or> k < 150) \<noteq> None \<and>
   (\<exists>r' ws. sm_lock sm_create_default (\<lambda>r k. r < 7 \<or> k < 150) = Some (r', ws) \<and> r' \<le> 7)"
proof -
  have h: "150 < nat (sm_try_cnt sm_create_default) \<and> \<not> (7 < (7::nat) \<or> 150 < (150::nat))"
    by (simp add: sm_create_default_def)
  show ?thesis using sm_lock_terminates [of sm_create_default "\<lambda>r k. r < 7 \<or> k < 150"] h by blast
qed

text \<open>
  C33. A \<open>spin_mutex\<close> constructed with a non-positive attempt count never
  tests the flag: \<open>try_lock\<close> always fails and \<open>lock\<close> never returns, even when
  the flag is free.
\<close>

theorem sm_nonpositive_count:
  "n \<le> 0 \<Longrightarrow> \<not> sm_try_lock (sm_create n) held \<and> sm_lock (sm_create n) held' = None"
proof -
  assume n: "n \<le> 0"
  have "\<not> sm_try_lock (sm_create n) held" using n by (simp add: sm_try_lock_def sm_create_def spin_loop_pos)
  moreover have "sm_lock (sm_create n) held' = None"
  proof (cases "sm_lock (sm_create n) held'")
    case (Some res)
    then have "0 < spin_loop n (held' (fst res)) 0"
      using sm_lock_loop_Some [of n held' 0 5 res] by (simp add: sm_lock_def sm_create_def)
    with n show ?thesis by (simp add: spin_loop_pos)
  qed
  ultimately show ?thesis ..
qed

theorem sm_nonpositive_count_witness:
  "\<not> sm_try_lock (sm_create 0) (\<lambda>k. False) \<and> sm_lock (sm_create 0) (\<lambda>r k. False) = None"
  using sm_nonpositive_count [of 0 "\<lambda>k. False" "\<lambda>r k. False"] by simp

lemma find_map_Suc: "find P (map Suc xs) = map_option Suc (find (\<lambda>j. P (Suc j)) xs)"
  by (induction xs) simp_all

lemma find_upt_Suc:
  "find P [0..<Suc m] = (if P 0 then Some 0 else map_option Suc (find (\<lambda>j. P (Suc j)) [0..<m]))"
proof -
  have "[0..<Suc m] = 0 # map Suc [0..<m]" by (simp add: upt_conv_Cons map_Suc_upt)
  then show ?thesis by (simp add: find_map_Suc)
qed

text \<open>
  C37. The counting loop equals its reference: it returns the attempt count
  minus the index of the first probe that finds the flag clear, or
  \<open>min cnt 0\<close> when none of the first \<open>cnt\<close> probes does.
\<close>

theorem spin_loop_equiv: "spin_loop n held k = spin_loop_ref n held k"
proof (induction n held k rule: spin_loop.induct)
  case (1 cnt held k)
  show ?case
  proof (cases "0 < cnt")
    case True
    then have n: "nat cnt = Suc (nat (cnt - 1))" by (simp add: Suc_nat_eq_nat_zadd1)
    show ?thesis
    proof (cases "held k")
      case h: True
      have "spin_loop cnt held k = spin_loop_ref (cnt - 1) held (Suc k)"
        using 1 True h by (simp add: spin_loop_step)
      also have "\<dots> = spin_loop_ref cnt held k"
        using True h unfolding spin_loop_ref_def n find_upt_Suc
        by (auto split: option.splits)
      finally show ?thesis .
    next
      case False
      then show ?thesis using True
        unfolding spin_loop_ref_def n find_upt_Suc by (simp add: spin_loop_stop)
    qed
  next
    case False
    then show ?thesis by (simp add: spin_loop_stop spin_loop_ref_def)
  qed
qed

theorem spin_loop_equiv_witness:
  "spin_loop 5 (\<lambda>j. j < 2) 0 = 3 \<and> spin_loop 3 (\<lambda>j. True) 0 = 0"
proof -
  have "spin_loop_ref 5 (\<lambda>j. j < 2) 0 = 3" "spin_loop_ref 3 (\<lambda>j. True) 0 = 0" by code_simp+
  then show ?thesis using spin_loop_equiv [of 5 "\<lambda>j. j < 2" 0] spin_loop_equiv [of 3 "\<lambda>j. True" 0]
    by simp
qed

lemma next_millis_range: "m \<in> {5, 20, 80, 320} \<Longrightarrow> next_millis m \<in> {5, 20, 80, 320}"
  by (auto simp: next_millis_def push_bit_eq_mult)

lemma spin_step_range:
  assumes "spin_step K t s s'" and "\<forall>u. pc_in_range K (spcs s u)"
  shows "pc_in_range K (spcs s' u)"
proof -
  have h: "pc_in_range K (spcs s t)" and hu: "pc_in_range K (spcs s u)" using assms(2) by blast+
  from assms(1) h hu show ?thesis
    by (cases rule: spin_step.cases)
      (auto simp: pc_in_range_def next_millis_def push_bit_eq_mult split: spin_pc.splits)
qed

text \<open>
  C38. In every reachable state each thread's counters stay in range: a
  \<open>try_lock\<close> or \<open>lock\<close> round counter lies between \<open>min 0 try_cnt\<close> and the
  attempt count, and every wait of \<open>spin_mutex::lock\<close> is 5, 20, 80 or 320 ms.
\<close>

theorem spin_pc_range: "spin_reach K s \<Longrightarrow> pc_in_range K (spcs s t)"
proof -
  assume "spin_reach K s"
  then have "\<forall>u. pc_in_range K (spcs s u)"
  proof (induction rule: spin_reach.induct)
    case init
    then show ?case by (simp add: spin_init_def pc_in_range_def)
  next
    case (step s t s')
    then show ?case using spin_step_range by blast
  qed
  then show ?thesis by blast
qed

theorem spin_pc_range_witness:
  "pc_in_range Kind_spin_lock (spcs (spin_init\<lparr>spcs := (spcs spin_init)(0 := S_try 100)\<rparr>) 0)"
proof -
  have "spin_reach Kind_spin_lock (spin_init\<lparr>spcs := (spcs spin_init)(0 := S_try 100)\<rparr>)"
    using spin_reach.step [OF spin_reach.init spin_step.call_try [where K = Kind_spin_lock, of spin_init 0]]
    by (simp add: spin_init_def)
  then show ?thesis by (rule spin_pc_range)
qed

end
