(* ===== verification/Locked_Map.thy ===== *)
theory Locked_Map
  imports Prelude "HOL-Library.AList_Mapping"
begin

text \<open>
  \<open>app::unordered_map\<close> of \<open>src/unordered_map.hpp\<close>: an \<open>std::unordered_map\<close>
  guarded by an \<open>std::recursive_mutex\<close>.  Every member function takes the mutex
  for its whole body, so a call is one atomic step on the map.  The map is an
  \<open>('k, 'v) mapping\<close> (lookups by key; the hash and the buckets are not
  observable through the functions modelled).  \<open>operator==\<close> takes the two
  maps' mutexes one after the other, which the second part models as threads
  acquiring recursive mutexes.
\<close>

datatype um_error = Out_of_range | Invalid_iterator

text \<open>An iterator designates the entry under a key, or is \<open>end()\<close>.\<close>

datatype 'k um_iter = It_at 'k | It_end

definition um_is_empty :: "('k, 'v) mapping \<Rightarrow> bool" where
  "um_is_empty m = Mapping.is_empty m"

definition um_size :: "('k, 'v) mapping \<Rightarrow> nat" where
  "um_size m = Mapping.size m"

text \<open>\<open>insert\<close> and \<open>emplace\<close>: a key already present keeps its value.\<close>

definition um_insert :: "'k \<Rightarrow> 'v \<Rightarrow> ('k, 'v) mapping \<Rightarrow> ('k, 'v) mapping \<times> bool" where
  "um_insert k v m = (case Mapping.lookup m k of None \<Rightarrow> (Mapping.update k v m, True) | Some _ \<Rightarrow> (m, False))"

definition um_erase :: "'k \<Rightarrow> ('k, 'v) mapping \<Rightarrow> ('k, 'v) mapping \<times> nat" where
  "um_erase k m = (Mapping.delete k m, case Mapping.lookup m k of None \<Rightarrow> 0 | Some _ \<Rightarrow> 1)"

definition um_clear :: "('k, 'v) mapping \<Rightarrow> ('k, 'v) mapping" where
  "um_clear m = Mapping.empty"

definition um_count :: "'k \<Rightarrow> ('k, 'v) mapping \<Rightarrow> nat" where
  "um_count k m = (case Mapping.lookup m k of None \<Rightarrow> 0 | Some _ \<Rightarrow> 1)"

text \<open>\<open>operator[]\<close> inserts the value-initialised \<open>dflt\<close> under an absent key.\<close>

definition um_index :: "'v \<Rightarrow> 'k \<Rightarrow> ('k, 'v) mapping \<Rightarrow> 'v \<times> ('k, 'v) mapping" where
  "um_index dflt k m = (case Mapping.lookup m k of None \<Rightarrow> (dflt, Mapping.update k dflt m) | Some v \<Rightarrow> (v, m))"

definition um_at :: "'k \<Rightarrow> ('k, 'v) mapping \<Rightarrow> um_error + 'v" where
  "um_at k m = (case Mapping.lookup m k of None \<Rightarrow> Inl Out_of_range | Some v \<Rightarrow> Inr v)"

text \<open>\<open>find(key, value)\<close>: the output parameter keeps its old value when the key is absent.\<close>

definition um_find :: "'k \<Rightarrow> ('k, 'v) mapping \<Rightarrow> 'v \<Rightarrow> bool \<times> 'v" where
  "um_find k m val = (case Mapping.lookup m k of None \<Rightarrow> (False, val) | Some v \<Rightarrow> (True, v))"

definition um_try_insert :: "'k \<Rightarrow> 'v \<Rightarrow> ('k, 'v) mapping \<Rightarrow> 'v \<times> ('k, 'v) mapping" where
  "um_try_insert k v m =
     (case Mapping.lookup m k of None \<Rightarrow> (v, fst (um_insert k v m)) | Some w \<Rightarrow> (w, m))"

definition um_try_insert_mv :: "'k \<Rightarrow> 'v \<Rightarrow> ('k, 'v) mapping \<Rightarrow> bool \<times> ('k, 'v) mapping" where
  "um_try_insert_mv k v m =
     (case Mapping.lookup m k of None \<Rightarrow> (True, fst (um_insert k v m)) | Some _ \<Rightarrow> (False, m))"

text \<open>\<open>replace\<close> calls \<open>insert\<close> on a key it has just found.\<close>

definition um_replace :: "'k \<Rightarrow> 'v \<Rightarrow> ('k, 'v) mapping \<Rightarrow> 'v option \<times> ('k, 'v) mapping" where
  "um_replace k v m =
     (case Mapping.lookup m k of Some w \<Rightarrow> (Some w, fst (um_insert k v m)) | None \<Rightarrow> (None, m))"

definition um_replace_cas :: "'k \<Rightarrow> 'v \<Rightarrow> 'v \<Rightarrow> ('k, 'v) mapping \<Rightarrow> bool \<times> ('k, 'v) mapping" where
  "um_replace_cas k v nv m =
     (case Mapping.lookup m k of
        Some w \<Rightarrow> if w = v then (True, fst (um_insert k nv m)) else (False, m)
      | None \<Rightarrow> (False, m))"

definition um_equal :: "('k, 'v) mapping \<Rightarrow> ('k, 'v) mapping \<Rightarrow> bool" where
  "um_equal x y = (x = y)"

definition um_not_equal :: "('k, 'v) mapping \<Rightarrow> ('k, 'v) mapping \<Rightarrow> bool" where
  "um_not_equal x y = (\<not> um_equal x y)"

text \<open>
  The constructors: the default one and those taking a bucket count, hash,
  equality or allocator start empty; those taking a \<open>std::unordered_map\<close>
  copy or move its entries.
\<close>

definition um_new :: "nat \<Rightarrow> ('k, 'v) mapping" where
  "um_new n = Mapping.empty"

definition um_of_map :: "('k, 'v) mapping \<Rightarrow> ('k, 'v) mapping" where
  "um_of_map v = v"

text \<open>
  \<open>insert\<close> of a range or an initializer list inserts the pairs in order, so a
  key present before, or earlier in the list, keeps its value; the constructors
  from a range or a list start from the empty map.
\<close>

definition um_insert_range :: "('k \<times> 'v) list \<Rightarrow> ('k, 'v) mapping \<Rightarrow> ('k, 'v) mapping" where
  "um_insert_range xs m = fold (\<lambda>(k, v) m. fst (um_insert k v m)) xs m"

definition um_of_list :: "('k \<times> 'v) list \<Rightarrow> ('k, 'v) mapping" where
  "um_of_list xs = um_insert_range xs Mapping.empty"

text \<open>
  \<open>emplace_hint\<close> and \<open>insert\<close> with a hint: the hint only guides the search;
  the result designates the entry under the key, inserted or already there.
\<close>

definition um_insert_hint :: "'k um_iter \<Rightarrow> 'k \<Rightarrow> 'v \<Rightarrow> ('k, 'v) mapping \<Rightarrow> 'k um_iter \<times> ('k, 'v) mapping" where
  "um_insert_hint h k v m = (It_at k, fst (um_insert k v m))"

text \<open>
  \<open>erase(position)\<close> needs an iterator to an entry of the map: \<open>end()\<close> or a
  dangling iterator is undefined behaviour, here an error.  The iterator it
  returns follows the erased entry in an unspecified order and is not kept.
\<close>

definition um_erase_it :: "'k um_iter \<Rightarrow> ('k, 'v) mapping \<Rightarrow> um_error + ('k, 'v) mapping" where
  "um_erase_it p m = (case p of
       It_end \<Rightarrow> Inl Invalid_iterator
     | It_at k \<Rightarrow> (case Mapping.lookup m k of None \<Rightarrow> Inl Invalid_iterator | Some _ \<Rightarrow> Inr (Mapping.delete k m)))"

text \<open>
  \<open>erase(first, last)\<close>: the range is given by the keys it covers in the
  map's iteration order; a range that leaves the map (a dangling or repeated
  position) is undefined behaviour, here an error.
\<close>

definition um_erase_range :: "'k list \<Rightarrow> ('k, 'v) mapping \<Rightarrow> um_error + ('k, 'v) mapping" where
  "um_erase_range ks m =
     (if distinct ks \<and> list_all (\<lambda>k. Mapping.lookup m k \<noteq> None) ks
      then Inr (fold Mapping.delete ks m) else Inl Invalid_iterator)"

definition um_find_it :: "'k \<Rightarrow> ('k, 'v) mapping \<Rightarrow> 'k um_iter" where
  "um_find_it k m = (case Mapping.lookup m k of None \<Rightarrow> It_end | Some _ \<Rightarrow> It_at k)"

text \<open>\<open>equal_range\<close>: the entries of the range it returns, at most one.\<close>

definition um_equal_range :: "'k \<Rightarrow> ('k, 'v) mapping \<Rightarrow> ('k \<times> 'v) list" where
  "um_equal_range k m = (case Mapping.lookup m k of None \<Rightarrow> [] | Some v \<Rightarrow> [(k, v)])"

text \<open>
  \<open>rehash\<close>, \<open>reserve\<close> and setting \<open>max_load_factor\<close> change the buckets only,
  never an entry.
\<close>

definition um_rehash :: "nat \<Rightarrow> ('k, 'v) mapping \<Rightarrow> ('k, 'v) mapping" where
  "um_rehash n m = m"

text \<open>
  \<open>operator==\<close> (with \<open>get_lock\<close>): a thread comparing the maps guarded by
  mutexes \<open>a\<close> and \<open>b\<close> locks \<open>a\<close>, then \<open>b\<close>, compares, and its two guards
  release both.  A recursive mutex records its owner and how often the owner
  holds it.
\<close>

datatype eq_pc = E_idle | E_lock_x nat nat | E_lock_y nat nat | E_cmp nat nat

record eq_sys =
  mtx_owner :: "nat \<Rightarrow> (tid \<times> nat) option"
  epcs :: "tid \<Rightarrow> eq_pc"

definition rm_can_lock :: "eq_sys \<Rightarrow> tid \<Rightarrow> nat \<Rightarrow> bool" where
  "rm_can_lock s t a = (case mtx_owner s a of None \<Rightarrow> True | Some (u, _) \<Rightarrow> u = t)"

definition rm_lock :: "tid \<Rightarrow> nat \<Rightarrow> eq_sys \<Rightarrow> eq_sys" where
  "rm_lock t a s = s\<lparr>mtx_owner := (mtx_owner s)(a \<mapsto>
     (t, case mtx_owner s a of None \<Rightarrow> 1 | Some (_, n) \<Rightarrow> Suc n))\<rparr>"

definition rm_unlock :: "nat \<Rightarrow> eq_sys \<Rightarrow> eq_sys" where
  "rm_unlock a s = s\<lparr>mtx_owner := (mtx_owner s)(a :=
     (case mtx_owner s a of None \<Rightarrow> None | Some (u, n) \<Rightarrow> if n \<le> 1 then None else Some (u, n - 1)))\<rparr>"

definition eq_init :: eq_sys where
  "eq_init = \<lparr>mtx_owner = (\<lambda>_. None), epcs = (\<lambda>_. E_idle)\<rparr>"

inductive eq_step :: "tid \<Rightarrow> eq_sys \<Rightarrow> eq_sys \<Rightarrow> bool" where
  call_eq: "epcs s t = E_idle \<Longrightarrow> eq_step t s (s\<lparr>epcs := (epcs s)(t := E_lock_x a b)\<rparr>)"
| lock_x: "epcs s t = E_lock_x a b \<Longrightarrow> rm_can_lock s t a \<Longrightarrow>
    eq_step t s ((rm_lock t a s)\<lparr>epcs := (epcs s)(t := E_lock_y a b)\<rparr>)"
| lock_y: "epcs s t = E_lock_y a b \<Longrightarrow> rm_can_lock s t b \<Longrightarrow>
    eq_step t s ((rm_lock t b s)\<lparr>epcs := (epcs s)(t := E_cmp a b)\<rparr>)"
| compare: "epcs s t = E_cmp a b \<Longrightarrow>
    eq_step t s ((rm_unlock a (rm_unlock b s))\<lparr>epcs := (epcs s)(t := E_idle)\<rparr>)"

definition eq_next :: "eq_sys \<Rightarrow> eq_sys \<Rightarrow> bool" where
  "eq_next s s' \<longleftrightarrow> (\<exists>t. eq_step t s s')"

text \<open>
  Threads 0 and 1 each hold the first mutex of their comparison and wait for the
  other's; no other thread is past its first lock on either mutex.
\<close>

fun eq_clear :: "eq_pc \<Rightarrow> bool" where
  "eq_clear (E_lock_y a b) = (a \<noteq> 1 \<and> a \<noteq> 2)"
| "eq_clear (E_cmp a b) = (a \<noteq> 1 \<and> a \<noteq> 2 \<and> b \<noteq> 1 \<and> b \<noteq> 2)"
| "eq_clear _ = True"

definition eq_crossed :: "eq_sys \<Rightarrow> bool" where
  "eq_crossed s \<longleftrightarrow> epcs s 0 = E_lock_y 1 2 \<and> epcs s 1 = E_lock_y 2 1 \<and>
     mtx_owner s 1 = Some (0, 1) \<and> mtx_owner s 2 = Some (1, 1) \<and>
     (\<forall>t. t \<noteq> 0 \<longrightarrow> t \<noteq> 1 \<longrightarrow> eq_clear (epcs s t))"

subsection \<open>Insertion and erasure of ranges\<close>

lemma um_insert_range_lookup:
  "Mapping.lookup (um_insert_range xs m) = map_of xs ++ Mapping.lookup m"
proof (induction xs arbitrary: m)
  case (Cons x xs)
  obtain k v where x: "x = (k, v)" by fastforce
  have "Mapping.lookup (fst (um_insert k v m)) = [k \<mapsto> v] ++ Mapping.lookup m"
    by (rule ext) (auto simp: um_insert_def map_add_def split: option.splits)
  then have "Mapping.lookup (um_insert_range (x # xs) m) = map_of xs ++ ([k \<mapsto> v] ++ Mapping.lookup m)"
    using Cons.IH [of "fst (um_insert k v m)"] by (simp add: um_insert_range_def x)
  also have "\<dots> = map_of (x # xs) ++ Mapping.lookup m"
    by (rule ext) (simp add: x map_add_def split: option.splits)
  finally show ?case .
qed (simp add: um_insert_range_def)

lemma lookup_fold_delete:
  "Mapping.lookup (fold Mapping.delete ks m) = Mapping.lookup m |` (- set ks)"
  by (induction ks arbitrary: m) (auto simp: restrict_map_def)

lemma um_erase_range_lookup:
  "um_erase_range ks m = Inr m' \<Longrightarrow> Mapping.lookup m' = Mapping.lookup m |` (- set ks)"
  by (auto simp: um_erase_range_def lookup_fold_delete split: if_splits)

lemma um_of_list_lookup: "Mapping.lookup (um_of_list xs) = map_of xs"
  by (simp add: um_of_list_def um_insert_range_lookup)

subsection \<open>Properties of the calls\<close>

text \<open>
  C34. \<open>replace\<close> does not replace: both overloads leave the map unchanged,
  because \<open>insert\<close> ignores a key that is present; the first returns the old
  value, the second reports success when the old value matched.
\<close>

theorem um_replace_noop:
  "um_replace k v m = (Mapping.lookup m k, m) \<and>
   um_replace_cas k v nv m = (Mapping.lookup m k = Some v, m)"
  by (auto simp: um_replace_def um_replace_cas_def um_insert_def split: option.splits)

text \<open>
  C35. \<open>try_insert\<close> returns the value stored under the key afterwards (the
  given value when the key was absent), \<open>find\<close> then returns it, and no other
  key changes.
\<close>

theorem um_try_insert_roundtrip:
  assumes "um_try_insert k v m = (r, m')"
  shows "um_find k m' x = (True, r) \<and> (Mapping.lookup m k = None \<longrightarrow> r = v) \<and>
    (\<forall>k'. k' \<noteq> k \<longrightarrow> Mapping.lookup m' k' = Mapping.lookup m k')"
  using assms by (auto simp: um_try_insert_def um_insert_def um_find_def split: option.splits)

theorem um_try_insert_roundtrip_witness:
  "um_find (1::nat) (Mapping.update 1 (7::nat) Mapping.empty) 0 = (True, 7) \<and>
   um_find (1::nat) (Mapping.update 1 (3::nat) Mapping.empty) 0 = (True, 3)"
proof -
  have a: "um_try_insert (1::nat) (7::nat) Mapping.empty = (7, Mapping.update 1 7 Mapping.empty)"
    by (simp add: um_try_insert_def um_insert_def)
  have b: "um_try_insert (1::nat) (7::nat) (Mapping.update 1 3 Mapping.empty) = (3, Mapping.update 1 3 Mapping.empty)"
    by (simp add: um_try_insert_def)
  show ?thesis using um_try_insert_roundtrip [OF a, of 0] um_try_insert_roundtrip [OF b, of 0] by simp
qed

subsection \<open>Lock order of the comparison\<close>

lemma eq_crossedD:
  assumes "eq_crossed s"
  shows "epcs s 0 = E_lock_y 1 2" "epcs s 1 = E_lock_y 2 1" "mtx_owner s 1 = Some (0, 1)"
    "mtx_owner s 2 = Some (1, 1)" "t \<noteq> 0 \<Longrightarrow> t \<noteq> 1 \<Longrightarrow> eq_clear (epcs s t)"
  using assms by (simp_all add: eq_crossed_def)

lemma eq_crossedI:
  assumes "epcs s 0 = E_lock_y 1 2" "epcs s 1 = E_lock_y 2 1" "mtx_owner s 1 = Some (0, 1)"
    "mtx_owner s 2 = Some (1, 1)" "\<And>t. t \<noteq> 0 \<Longrightarrow> t \<noteq> 1 \<Longrightarrow> eq_clear (epcs s t)"
  shows "eq_crossed s"
  using assms by (simp add: eq_crossed_def)

lemma eq_crossed_owner:
  "eq_crossed s \<Longrightarrow> rm_can_lock s t a \<Longrightarrow> a = 1 \<or> a = 2 \<Longrightarrow> (a = 1 \<and> t = 0) \<or> (a = 2 \<and> t = 1)"
  by (auto simp: eq_crossed_def rm_can_lock_def)

lemma eq_crossed_not01:
  "eq_crossed s \<Longrightarrow> epcs s t \<noteq> E_lock_y 1 2 \<Longrightarrow> epcs s t \<noteq> E_lock_y 2 1 \<Longrightarrow> t \<noteq> 0 \<and> t \<noteq> 1"
  by (cases "t = 0"; cases "t = 1") (simp_all add: eq_crossed_def)

lemma eq_crossed_step: "eq_step t s s' \<Longrightarrow> eq_crossed s \<Longrightarrow> eq_crossed s'"
proof (induction rule: eq_step.induct)
  case (call_eq s t a b)
  note D = eq_crossedD [OF call_eq.prems]
  have "t \<noteq> 0 \<and> t \<noteq> 1" using eq_crossed_not01 [OF call_eq.prems] call_eq.hyps by simp
  then show ?case using D by (intro eq_crossedI) auto
next
  case (lock_x s t a b)
  note D = eq_crossedD [OF lock_x.prems]
  have t: "t \<noteq> 0" "t \<noteq> 1" using eq_crossed_not01 [OF lock_x.prems] lock_x.hyps(1) by simp_all
  then have a: "a \<noteq> 1" "a \<noteq> 2" using eq_crossed_owner [OF lock_x.prems lock_x.hyps(2)] by auto
  show ?case using t a D by (intro eq_crossedI) (simp_all add: rm_lock_def)
next
  case (lock_y s t a b)
  note D = eq_crossedD [OF lock_y.prems]
  have "b = 1 \<or> b = 2 \<Longrightarrow> False"
    using eq_crossed_owner [OF lock_y.prems lock_y.hyps(2)] lock_y.hyps(1) D(1,2) by auto
  then have b: "b \<noteq> 1" "b \<noteq> 2" by auto
  have t: "t \<noteq> 0" "t \<noteq> 1" using lock_y.hyps(1) D(1,2) b by (cases "t = 0"; cases "t = 1"; simp)+
  have a: "a \<noteq> 1" "a \<noteq> 2" using D(5) [OF t] lock_y.hyps(1) by simp_all
  show ?case using t a b D by (intro eq_crossedI) (simp_all add: rm_lock_def)
next
  case (compare s t a b)
  note D = eq_crossedD [OF compare.prems]
  have t: "t \<noteq> 0" "t \<noteq> 1" using eq_crossed_not01 [OF compare.prems] compare.hyps by simp_all
  have ab: "a \<noteq> 1" "a \<noteq> 2" "b \<noteq> 1" "b \<noteq> 2" using D(5) [OF t] compare.hyps by simp_all
  show ?case using t ab D by (intro eq_crossedI) (simp_all add: rm_unlock_def)
qed

lemma eq_crossed_steps: "eq_next\<^sup>*\<^sup>* s s' \<Longrightarrow> eq_crossed s \<Longrightarrow> eq_crossed s'"
  by (induction rule: rtranclp_induct) (auto simp: eq_next_def intro: eq_crossed_step)

lemma eq_next_snoc: "eq_next\<^sup>*\<^sup>* s0 s \<Longrightarrow> eq_step t s s' \<Longrightarrow> eq_next\<^sup>*\<^sup>* s0 s'"
  by (rule rtranclp.rtrancl_into_rtrancl) (auto simp: eq_next_def)

text \<open>
  C36. \<open>operator==\<close> takes the two maps' mutexes in argument order, so a
  thread evaluating \<open>a == b\<close> and one evaluating \<open>b == a\<close> can each take its
  first mutex and then wait for ever for the other's.
\<close>

theorem eq_opposite_order_deadlock:
  "\<exists>s. eq_next\<^sup>*\<^sup>* eq_init s \<and>
     (\<forall>s'. eq_next\<^sup>*\<^sup>* s s' \<longrightarrow> epcs s' 0 = E_lock_y 1 2 \<and> epcs s' 1 = E_lock_y 2 1)"
proof -
  let ?s1 = "eq_init\<lparr>epcs := (epcs eq_init)(0 := E_lock_x 1 2)\<rparr>"
  let ?s2 = "?s1\<lparr>epcs := (epcs ?s1)(1 := E_lock_x 2 1)\<rparr>"
  let ?s3 = "(rm_lock 0 1 ?s2)\<lparr>epcs := (epcs ?s2)(0 := E_lock_y 1 2)\<rparr>"
  let ?s4 = "(rm_lock 1 2 ?s3)\<lparr>epcs := (epcs ?s3)(1 := E_lock_y 2 1)\<rparr>"
  have a: "eq_step 0 eq_init ?s1" by (rule eq_step.call_eq) (simp add: eq_init_def)
  have b: "eq_step 1 ?s1 ?s2" by (rule eq_step.call_eq) (simp add: eq_init_def)
  have c: "eq_step 0 ?s2 ?s3" by (rule eq_step.lock_x) (simp_all add: eq_init_def rm_can_lock_def)
  have d: "eq_step 1 ?s3 ?s4"
    by (rule eq_step.lock_x) (simp_all add: eq_init_def rm_can_lock_def rm_lock_def)
  have r: "eq_next\<^sup>*\<^sup>* eq_init ?s4"
    by (rule eq_next_snoc [OF eq_next_snoc [OF eq_next_snoc [OF eq_next_snoc [OF rtranclp.rtrancl_refl a] b] c] d])
  have x: "eq_crossed ?s4" by (intro eq_crossedI) (simp_all add: eq_init_def rm_lock_def)
  have "\<forall>s'. eq_next\<^sup>*\<^sup>* ?s4 s' \<longrightarrow> epcs s' 0 = E_lock_y 1 2 \<and> epcs s' 1 = E_lock_y 2 1"
  proof (intro allI impI)
    fix s' assume "eq_next\<^sup>*\<^sup>* ?s4 s'"
    from eq_crossedD(1,2) [OF eq_crossed_steps [OF this x]]
    show "epcs s' 0 = E_lock_y 1 2 \<and> epcs s' 1 = E_lock_y 2 1" by simp
  qed
  with r have "eq_next\<^sup>*\<^sup>* eq_init ?s4 \<and>
      (\<forall>s'. eq_next\<^sup>*\<^sup>* ?s4 s' \<longrightarrow> epcs s' 0 = E_lock_y 1 2 \<and> epcs s' 1 = E_lock_y 2 1)" ..
  then show ?thesis by (rule exI [where x = ?s4])
qed

theorem eq_opposite_order_deadlock_witness:
  "\<exists>s. eq_next\<^sup>*\<^sup>* eq_init s \<and> epcs s 0 = E_lock_y 1 2 \<and> epcs s 1 = E_lock_y 2 1"
  using eq_opposite_order_deadlock by blast

end
