(* ===== verification/Spec2Isabelle.thy ===== *)
theory Spec2Isabelle
  imports RW_System RW_Guards SafeQueue Spin Locked_Map
begin

text \<open>
  Verification development of the \<open>multi_thread\<close> primitives library
  (\<open>src/shared_mutex.h\<close>, \<open>src/safequeue.hpp\<close>, \<open>src/spinlock.h\<close>,
  \<open>src/unordered_map.hpp\<close>), a shallow embedding: every data member is a record
  field, every member function a HOL function on that record, every blocking
  wait an \<open>option\<close> (\<open>None\<close> is "still waiting"), every \<open>utils_assert\<close>, thrown
  exception and undefined behaviour a value of an error type, and threads an
  inductive step relation over a record of per-thread program counters.

  \<^bold>\<open>The parts and how they interact.\<close>
  \<^item> \<open>Prelude\<close>: thread ids, the \<open>size_t\<close> decrement with wrap-around
    (\<open>size_dec\<close>, to \<open>SIZE_MAX = 2^64 - 1\<close>), finite depth maps and their sums,
    and the rules that read a library map (\<open>('k, 'v) mapping\<close>) through its
    lookup function.
  \<^item> \<open>RW_Lock\<close>: \<open>app::shared_mutex\<close> one call at a time.  Record \<open>rw_lock\<close> holds
    \<open>read_cnt_\<close>, \<open>write_cnt_\<close>, \<open>write_depth_\<close>, \<open>w_id_\<close>, and
    \<open>read_depth_\<close> as an executable red-black-tree \<open>mapping\<close> \<open>rd_map\<close>
    (\<open>read_depth\<close> is its lookup function); the
    predicates \<open>readable\<close> and \<open>writeable\<close>, the helpers \<open>rw_read\<close>/\<open>rw_write\<close>
    (the code's \<open>read()\<close>/\<open>write()\<close>), and \<open>lock_shared\<close>, \<open>try_lock_shared\<close>,
    \<open>unlock_shared\<close>, \<open>lock\<close> (as \<open>lock_enter\<close> then \<open>lock_wait\<close>, because it
    counts its request before it waits), \<open>try_lock\<close>, \<open>unlock\<close>.  Releases return
    which condition variable they notify (\<open>wake\<close>).  \<open>rw_wf\<close> is the data
    invariant of the specification.
  \<^item> \<open>RW_System\<close>: threads calling the lock.  Record \<open>rw_sys\<close> adds a program
    counter per thread (outside, or waiting inside \<open>lock_shared\<close>/\<open>lock\<close>) and
    ghost counts of what each thread holds; \<open>rw_step\<close> has one rule per atomic
    step of the code (a call, the completion of a wait, a try, a release),
    \<open>rw_exec\<close> is the same relation as a function and \<open>run\<close> executes a list of
    actions.  \<open>reach P\<close> are the states reachable when every call obeys the
    usage policy \<open>P\<close>: \<open>well_used\<close> (the API contract: release only what you
    hold) or \<open>disciplined\<close> (also no \<open>try_lock\<close>, and the last exclusive release
    after the shared ones).
  \<^item> \<open>RW_Guards\<close>: the four RAII guards over the lock's primitive calls, seen
    from the owning thread; scoped guards as sections, unique guards as records
    of their ownership state, the destructor loop of \<open>unique_read_guard\<close> as a
    terminating recursion.
  \<^item> \<open>SafeQueue\<close>: \<open>safe_queue_base\<close> over a container interface (a record of
    \<open>push\<close>, \<open>front\<close>, \<open>pop\<close>, \<open>empty\<close>) with the contract \<open>container_laws\<close>;
    instances \<open>std_queue_container\<close> (\<open>std::queue<T>\<close>) and \<open>prio_container\<close> (\<open>priority_queue\<close>, whose
    \<open>front\<close> is the maximum); \<open>size_\<close> is a \<open>64 word\<close> starting at an
    arbitrary \<open>n0\<close>; \<open>sq_run\<close> executes a sequence of calls under the mutex.
  \<^item> \<open>Spin\<close>: \<open>spin_lock\<close> and \<open>spin_mutex\<close>.  One call is a function of an
    oracle giving each \<open>test_and_set\<close> result (the bounded counting loop a
    terminating \<open>function\<close>, the unbounded loops \<open>partial_function (option)\<close>);
    the threads sharing the flag are the step relation \<open>spin_step\<close>.
  \<^item> \<open>Locked_Map\<close>: \<open>app::unordered_map\<close> as an \<open>('k, 'v) mapping\<close>, one
    definition per constructor and per member function that reads or changes
    entries (an iterator \<open>um_iter\<close> is the key of its entry or \<open>end()\<close>, a
    range the list of keys it covers, and erasing at an invalid position an
    error), and \<open>eq_step\<close> the lock order of \<open>operator==\<close> over recursive
    mutexes.  The calls the wrapper only forwards carry no claim of their own:
    their behaviour is the standard library's.

  \<^bold>\<open>What the lemmas show.\<close>
  For the lock: mutual exclusion under the disciplined policy (C1) and the
  invariant behind it (C6), and the traces that break it under the API contract
  alone (\<open>try_lock\<close> tests before it counts, C2; the final \<open>unlock\<close> of an
  upgrader leaves \<open>w_id_\<close> set, C3); two deadlocks (two waiting writers, C4; a
  reentrant reader behind a waiting writer, C5); writer progress and writer
  preference (C7, C8); the upgrade path (C9); reentrancy of an exclusive hold
  (C10); the data invariant of the operations (C11); the error paths of both
  releases and of \<open>try_lock\<close> (C13-C18).  For the guards: release of all
  references (C12), fatal misuse (C19), move (C20), nesting (C21).  For the
  queue: conservation and the \<open>size_\<close> count over any lawful container (C22),
  first-in first-out order over \<open>std::queue\<close> (C23), priority order (C24), the
  inverted \<open>empty()\<close> (C25), the push/pop round trip (C26), the timed pop on an
  empty queue (C27).  For the spin primitives: mutual exclusion (C28), the
  bound of \<open>try_lock\<close> (C29), when \<open>lock\<close> returns (C30), the backoff waits
  (C31), when \<open>spin_mutex::lock\<close> terminates and in which round (C32), a
  non-positive attempt count (C33), the counting loop against a reference
  (C37), the ranges of the threads' counters (C38).  For the map: \<open>replace\<close>
  changing nothing (C34), \<open>try_insert\<close> (C35), the \<open>operator==\<close> deadlock
  (C36).  The lemmas on the map's range insertion and erasure read the result
  through its lookup function (the constructor from a list is \<open>map_of\<close>).

  \<^bold>\<open>Bounds and non-termination.\<close>
  Counters of the lock are \<open>nat\<close>: they only overflow after \<open>2^64\<close>
  outstanding acquisitions; the one unguarded decrement wraps explicitly.  The
  queue's \<open>size_\<close> is a \<open>64 word\<close>, so its statements hold modulo \<open>2^64\<close> and
  \<open>empty()\<close> is characterised below \<open>2^64\<close> elements.  No model uses fuel:
  loops with a variant are \<open>function\<close>s with a \<open>measure\<close>, loops that may spin
  for ever are \<open>partial_function (option)\<close>, and their claims say when they
  return (\<open>Some\<close>) and when they do not (\<open>None\<close>).

  \<^bold>\<open>Not modelled.\<close>
  The condition variables beyond "a waiting thread resumes when its predicate
  holds" (no spurious or lost wake-ups, no timing); memory ordering of the
  atomics (every \<open>test_and_set\<close> and \<open>clear\<close> is sequentially consistent here);
  the copy constructors of both unique guards and the move constructor of
  \<open>unique_read_guard\<close>, which name a member \<open>rw_\<close> that does not exist and do
  not compile; the map's \<open>begin\<close>/\<open>end\<close> and bucket iterators, whose order
  is unspecified, and its read-only bucket and hash-policy observers; its
  \<open>swap\<close>, which names the library-internal member \<open>_M_h\<close>.  \<open>safe_queue<T>\<close> instantiates
  the queue with \<open>std::deque\<close>, which has no \<open>push\<close> or \<open>pop\<close>, so that
  alias does not compile; the FIFO statements are about the base instantiated
  with \<open>std::queue<T>\<close>, which does.
\<close>

end
